theory Spec2Isabelle
  imports Complex_Main
begin

section \<open>Machine arithmetic\<close>

text \<open>
  Block addresses (\<open>GlobalID\<close>) are 64-bit unsigned integers; the indices, the
  bounding box and the multipliers of \<open>amr::AmrMesh\<close> are \<open>uint32_t\<close>.
  Both are modelled as natural numbers with the wrap-around written out.
  The header \<open>amr_mesh.h\<close> that declares the members is not part of the
  sources at hand: \<open>bbox\<close> is taken to be \<open>uint32_t[6]\<close>, the width of the
  constructor's parameters that are stored in it.
\<close>

type_synonym GlobalID = nat
type_synonym LocalID = nat

definition u32 :: "nat \<Rightarrow> nat" where
  "u32 x = x mod 2 ^ 32"

definition u64 :: "nat \<Rightarrow> nat" where
  "u64 x = x mod 2 ^ 64"

text \<open>\<open>a - b\<close> on 64-bit unsigned values.\<close>

definition sub64 :: "nat \<Rightarrow> nat \<Rightarrow> nat" where
  "sub64 a b = (a + 2 ^ 64 - b mod 2 ^ 64) mod 2 ^ 64"

text \<open>
  \<open>i + off\<close> for a \<open>uint32_t i\<close> and an \<open>int off\<close>: the sum is computed in
  unsigned 32-bit arithmetic, so \<open>0 + (-1)\<close> is \<open>4294967295\<close>.
\<close>

definition add_off :: "nat \<Rightarrow> int \<Rightarrow> nat" where
  "add_off i off = nat ((int i + off) mod 2 ^ 32)"

section \<open>The mesh index\<close>

text \<open>
  The members of \<open>AmrMesh\<close> that are fixed once the mesh is constructed and
  initialised. The block mapping \<open>globalIDs\<close>, the only member that
  \<open>refine\<close> and \<open>coarsen\<close> write, is passed and returned explicitly by the
  operations below. A callback is a function that returns what the C++ callback
  writes through its output parameter; \<open>None\<close> is the \<open>NULL\<close> pointer.
  \<open>indeterminate\<close> stands for the value of an uninitialised \<open>LocalID\<close>
  local, which is what gets stored when no callback is registered.
\<close>

record AmrMesh =
  bbox :: "nat list"
  refLevelMaxAllowed :: nat
  meshLimits :: "real list"
  callbackCoarsenBlock :: "(GlobalID list \<Rightarrow> LocalID list \<Rightarrow> GlobalID \<Rightarrow> LocalID) option"
  callbackRefineBlock :: "(GlobalID \<Rightarrow> LocalID \<Rightarrow> GlobalID list \<Rightarrow> LocalID list) option"
  indeterminate :: LocalID

text \<open>
  Modelled from the spec: the sentinels \<open>INVALID_GLOBALID\<close> and
  \<open>INVALID_LOCALID\<close> are declared in the missing header \<open>amr_mesh.h\<close>; the
  spec only calls them reserved values. They are taken to be the largest 64-bit
  value.
\<close>

definition INVALID_GLOBALID :: GlobalID where
  "INVALID_GLOBALID = 2 ^ 64 - 1"

definition INVALID_LOCALID :: LocalID where
  "INVALID_LOCALID = 2 ^ 64 - 1"

text \<open>The constructor: \<open>N_blocks0 = bbox[0]*bbox[1]*bbox[2]\<close>, a 32-bit product.\<close>

definition N_blocks0 :: "AmrMesh \<Rightarrow> nat" where
  "N_blocks0 m = u32 (bbox m ! 0 * bbox m ! 1 * bbox m ! 2)"

text \<open>
  The offsets table as \<open>initialize\<close> builds it: \<open>offsets[0] = 0\<close> and
  \<open>offsets[i] = offsets[i-1] + N_blocks0 * pow(8,i-1)\<close> for
  \<open>i = 1 .. refLevelMaxAllowed\<close>. The C++ sum is computed in double
  precision; it is the exact sum below as long as the values stay under
  \<open>2^53\<close>, which is the range all statements of this theory are about.
\<close>

fun offsets_upto :: "nat \<Rightarrow> nat \<Rightarrow> nat list" where
  "offsets_upto n0 0 = [0]"
| "offsets_upto n0 (Suc i) =
     (let os = offsets_upto n0 i in os @ [last os + n0 * 8 ^ i])"

definition offsets :: "AmrMesh \<Rightarrow> nat list" where
  "offsets m = offsets_upto (N_blocks0 m) (refLevelMaxAllowed m)"

text \<open>
  \<open>std::upper_bound\<close> on a sorted table: the position of the first element
  greater than the value.
\<close>

definition upper_bound :: "nat list \<Rightarrow> nat \<Rightarrow> nat" where
  "upper_bound xs v = length (takeWhile (\<lambda>x. x \<le> v) xs)"

text \<open>
  \<open>getGlobalID(refLevel,i,j,k)\<close>. The multiplier and the three products are
  \<open>uint32_t\<close>; only the final sum is 64 bits wide. \<open>offsets[refLevel]\<close> is
  read without a range check: for \<open>refLevel > refLevelMaxAllowed\<close> the C++
  behaviour is undefined, as is the value of \<open>!\<close> here.
\<close>

definition getGlobalID :: "AmrMesh \<Rightarrow> nat \<Rightarrow> nat \<Rightarrow> nat \<Rightarrow> nat \<Rightarrow> GlobalID" where
  "getGlobalID m refLevel i j k =
     (let multiplier = u32 (2 ^ refLevel)
      in u64 (offsets m ! refLevel
              + u32 (k * (bbox m ! 1) * (bbox m ! 0) * multiplier * multiplier)
              + u32 (j * (bbox m ! 0) * multiplier)
              + i))"

text \<open>
  \<open>getIndices\<close>: the level is found by \<open>upper_bound\<close>, the remainder is
  decomposed with 64-bit arithmetic and the three indices are stored in
  \<open>uint32_t\<close> variables. The result is \<open>(refLevel, i, j, k)\<close>. The two
  divisions trap in C++ when the divisor is zero, and are \<open>0\<close> here; the
  statements below are about meshes with positive block counts.
\<close>

definition getIndices :: "AmrMesh \<Rightarrow> GlobalID \<Rightarrow> nat \<times> nat \<times> nat \<times> nat" where
  "getIndices m globalID =
     (let refLevel = add_off (upper_bound (offsets m) globalID) (- 1);
          cellOffset = offsets m ! refLevel;
          multiplier = u64 (2 ^ refLevel);
          Nx = u64 (bbox m ! 0 * multiplier);
          Ny = u64 (bbox m ! 1 * multiplier);
          index = sub64 globalID cellOffset;
          k = u32 (index div u64 (Ny * Nx));
          index' = sub64 index (u64 (k * Ny * Nx));
          j = u32 (index' div Nx);
          i = u32 (sub64 index' (u64 (j * Nx)))
      in (refLevel, i, j, k))"


text \<open>
  \<open>getChildren\<close>: the global IDs of the eight children, or nothing when the
  block is at the deepest level.
\<close>

definition getChildren :: "AmrMesh \<Rightarrow> GlobalID \<Rightarrow> GlobalID list" where
  "getChildren m globalID =
     (case getIndices m globalID of (refLevel, i, j, k) \<Rightarrow>
        if u32 (refLevel + 1) > refLevelMaxAllowed m then []
        else
          (let i = u32 (i * 2); j = u32 (j * 2); k = u32 (k * 2); l = u32 (refLevel + 1)
           in [getGlobalID m l i j k,
               getGlobalID m l (u32 (i + 1)) j k,
               getGlobalID m l i (u32 (j + 1)) k,
               getGlobalID m l (u32 (i + 1)) (u32 (j + 1)) k,
               getGlobalID m l i j (u32 (k + 1)),
               getGlobalID m l (u32 (i + 1)) j (u32 (k + 1)),
               getGlobalID m l i (u32 (j + 1)) (u32 (k + 1)),
               getGlobalID m l (u32 (i + 1)) (u32 (j + 1)) (u32 (k + 1))]))"

text \<open>
  \<open>getNeighbors\<close>: the same-level neighbours, three nested loops over the
  offsets \<open>-1, 0, 1\<close>. An index outside the level's grid is skipped; \<open>0 - 1\<close>
  wraps to a large unsigned value and is skipped by the same test.
\<close>

definition getNeighbors :: "AmrMesh \<Rightarrow> GlobalID \<Rightarrow> GlobalID list" where
  "getNeighbors m globalID =
     (case getIndices m globalID of (refLevel, i, j, k) \<Rightarrow>
        (let Nx_max = u32 (bbox m ! 0 * 2 ^ refLevel);
             Ny_max = u32 (bbox m ! 1 * 2 ^ refLevel);
             Nz_max = u32 (bbox m ! 2 * 2 ^ refLevel)
         in concat (map (\<lambda>k_off.
              if add_off k k_off \<ge> Nz_max then []
              else concat (map (\<lambda>j_off.
                if add_off j j_off \<ge> Ny_max then []
                else concat (map (\<lambda>i_off.
                  if add_off i i_off \<ge> Nx_max then []
                  else if i_off = 0 \<and> (j_off = 0 \<and> k_off = 0) then []
                  else [getGlobalID m refLevel (add_off i i_off) (add_off j j_off)
                          (add_off k k_off)])
                  [- 1, 0, 1]))
                [- 1, 0, 1]))
              [- 1, 0, 1])))"

text \<open>\<open>getParent\<close>: a block of level 0 is its own parent.\<close>

definition getParent :: "AmrMesh \<Rightarrow> GlobalID \<Rightarrow> GlobalID" where
  "getParent m globalID =
     (case getIndices m globalID of (refLevel, i, j, k) \<Rightarrow>
        if refLevel = 0 then globalID
        else getGlobalID m (refLevel - 1) (i div 2) (j div 2) (k div 2))"

text \<open>
  \<open>getSiblingNeighbors\<close>: the offsets \<open>-1 .. 2\<close> around the corner of the
  sibling octet, without the eight inner positions. The indices are not compared
  with the grid bounds.
\<close>

definition getSiblingNeighbors :: "AmrMesh \<Rightarrow> GlobalID \<Rightarrow> GlobalID list" where
  "getSiblingNeighbors m globalID =
     (case getIndices m globalID of (refLevel, i, j, k) \<Rightarrow>
        (let i = i - i mod 2; j = j - j mod 2; k = k - k mod 2
         in concat (map (\<lambda>k_off.
              concat (map (\<lambda>j_off.
                concat (map (\<lambda>i_off.
                  (let cntr = (if i_off = 0 \<or> i_off = 1 then 1 else 0)
                            + (if j_off = 0 \<or> j_off = 1 then 1 else 0)
                            + (if k_off = 0 \<or> k_off = 1 then (1::nat) else 0)
                   in if cntr = 3 then []
                      else [getGlobalID m refLevel (add_off i i_off) (add_off j j_off)
                              (add_off k k_off)]))
                  [- 1, 0, 1, 2]))
                [- 1, 0, 1, 2]))
              [- 1, 0, 1, 2])))"

definition getSiblings :: "AmrMesh \<Rightarrow> GlobalID \<Rightarrow> GlobalID list" where
  "getSiblings m globalID =
     (case getIndices m globalID of (refLevel, i, j, k) \<Rightarrow>
        (let i = i - i mod 2; j = j - j mod 2; k = k - k mod 2
         in [getGlobalID m refLevel i j k,
             getGlobalID m refLevel (u32 (i + 1)) j k,
             getGlobalID m refLevel i (u32 (j + 1)) k,
             getGlobalID m refLevel (u32 (i + 1)) (u32 (j + 1)) k,
             getGlobalID m refLevel i j (u32 (k + 1)),
             getGlobalID m refLevel (u32 (i + 1)) j (u32 (k + 1)),
             getGlobalID m refLevel i (u32 (j + 1)) (u32 (k + 1)),
             getGlobalID m refLevel (u32 (i + 1)) (u32 (j + 1)) (u32 (k + 1))]))"

text \<open>
  \<open>unordered_map::insert\<close> leaves an existing entry as it is.
\<close>

definition map_insert :: "('k \<rightharpoonup> 'v) \<Rightarrow> 'k \<Rightarrow> 'v \<Rightarrow> ('k \<rightharpoonup> 'v)" where
  "map_insert g key v = (if g key = None then g(key \<mapsto> v) else g)"

text \<open>
  \<open>checkBlock\<close> calls itself on the children. The first argument bounds the
  depth of the recursion; \<open>None\<close> means the bound was too small. The loop
  over the children does not stop at the first failure.
\<close>

fun checkBlock_children :: "(GlobalID \<Rightarrow> bool option) \<Rightarrow> GlobalID list \<Rightarrow> bool \<Rightarrow> bool option" where
  "checkBlock_children rec [] ok = Some ok"
| "checkBlock_children rec (c # cs) ok =
     (case rec c of
        None \<Rightarrow> None
      | Some r \<Rightarrow> checkBlock_children rec cs (if r = False then False else ok))"

primrec checkBlock :: "nat \<Rightarrow> AmrMesh \<Rightarrow> (GlobalID \<rightharpoonup> LocalID) \<Rightarrow> GlobalID \<Rightarrow> bool option" where
  "checkBlock 0 m g globalID = None"
| "checkBlock (Suc fuel) m g globalID =
     (if g globalID \<noteq> None then Some True
      else checkBlock_children (checkBlock fuel m g) (getChildren m globalID) True)"

text \<open>
  \<open>coarsen\<close>. The result is the returned flag and the block mapping after the
  call; \<open>None\<close> is the \<open>exit(1)\<close> of the removal loop.
\<close>

fun coarsen_remove :: "(GlobalID \<rightharpoonup> LocalID) \<Rightarrow> GlobalID list \<Rightarrow> (GlobalID \<rightharpoonup> LocalID) option" where
  "coarsen_remove g [] = Some g"
| "coarsen_remove g (s # ss) =
     (if g s = None then None else coarsen_remove (g(s := None)) ss)"

definition coarsen ::
  "AmrMesh \<Rightarrow> (GlobalID \<rightharpoonup> LocalID) \<Rightarrow> GlobalID \<Rightarrow> (bool \<times> (GlobalID \<rightharpoonup> LocalID)) option" where
  "coarsen m g globalID =
     (if g globalID = None then Some (False, g)
      else case getIndices m globalID of (refLevel, i, j, k) \<Rightarrow>
        if refLevel = 0 then Some (False, g)
        else
          (let nbrs = getSiblingNeighbors m globalID
           in if list_ex (\<lambda>n. list_ex (\<lambda>c. g c \<noteq> None) (getChildren m n)) nbrs
              then Some (False, g)
              else
                (let siblings = getSiblings m globalID
                 in if list_ex (\<lambda>s. g s = None) siblings then Some (False, g)
                    else
                      (let siblingIndices =
                             map (\<lambda>s. case g s of None \<Rightarrow> INVALID_LOCALID | Some l \<Rightarrow> l) siblings;
                           newLocalID =
                             (case callbackCoarsenBlock m of
                                None \<Rightarrow> indeterminate m
                              | Some cb \<Rightarrow> cb siblings siblingIndices (getParent m globalID))
                       in case coarsen_remove g siblings of
                            None \<Rightarrow> None
                          | Some g' \<Rightarrow>
                              Some (True, map_insert g' (getParent m globalID) newLocalID)))))"

text \<open>
  \<open>refine\<close>. The loop over the neighbours calls \<open>refine\<close> on the parent of a
  neighbour whenever that parent is in the mapping; the recursive call is the
  first argument of \<open>refine_nbrs\<close>. The first argument of \<open>refine\<close> bounds the
  depth of the recursion, \<open>None\<close> means the bound was too small. The array
  \<open>childrenGlobalIDs\<close> handed to the callback is computed from the indices
  before they are doubled; the entries inserted into the mapping use the
  doubled indices.
\<close>

fun refine_nbrs ::
  "((GlobalID \<rightharpoonup> LocalID) \<Rightarrow> GlobalID \<Rightarrow> (bool \<times> (GlobalID \<rightharpoonup> LocalID)) option) \<Rightarrow>
   AmrMesh \<Rightarrow> (GlobalID \<rightharpoonup> LocalID) \<Rightarrow> GlobalID list \<Rightarrow> (GlobalID \<rightharpoonup> LocalID) option" where
  "refine_nbrs rec m g [] = Some g"
| "refine_nbrs rec m g (nbr # nbrs) =
     (let parentID = getParent m nbr
      in if parentID = nbr then refine_nbrs rec m g nbrs
         else if g parentID \<noteq> None then
           (case rec g parentID of
              None \<Rightarrow> None
            | Some (r, g') \<Rightarrow> refine_nbrs rec m g' nbrs)
         else refine_nbrs rec m g nbrs)"

definition refine_children :: "AmrMesh \<Rightarrow> nat \<Rightarrow> nat \<Rightarrow> nat \<Rightarrow> nat \<Rightarrow> GlobalID list" where
  "refine_children m l i j k =
     [getGlobalID m l i j k,
      getGlobalID m l (u32 (i + 1)) j k,
      getGlobalID m l i (u32 (j + 1)) k,
      getGlobalID m l (u32 (i + 1)) (u32 (j + 1)) k,
      getGlobalID m l i j (u32 (k + 1)),
      getGlobalID m l (u32 (i + 1)) j (u32 (k + 1)),
      getGlobalID m l i (u32 (j + 1)) (u32 (k + 1)),
      getGlobalID m l (u32 (i + 1)) (u32 (j + 1)) (u32 (k + 1))]"

fun insert_children ::
  "(GlobalID \<rightharpoonup> LocalID) \<Rightarrow> GlobalID list \<Rightarrow> LocalID list \<Rightarrow> nat \<Rightarrow> (GlobalID \<rightharpoonup> LocalID)" where
  "insert_children g [] ls n = g"
| "insert_children g (c # cs) ls n = insert_children (map_insert g c (ls ! n)) cs ls (Suc n)"

primrec refine ::
  "nat \<Rightarrow> AmrMesh \<Rightarrow> (GlobalID \<rightharpoonup> LocalID) \<Rightarrow> GlobalID \<Rightarrow> (bool \<times> (GlobalID \<rightharpoonup> LocalID)) option" where
  "refine 0 m g globalID = None"
| "refine (Suc fuel) m g globalID =
     (if g globalID = None then Some (False, g)
      else
        (let nbrs = getNeighbors m globalID
         in case getIndices m globalID of (refLevel, i, j, k) \<Rightarrow>
              if refLevel = refLevelMaxAllowed m then Some (False, g)
              else
                (let childrenGlobalIDs = refine_children m (u32 (refLevel + 1)) i j k;
                     childrenLocalIDs =
                       (case callbackRefineBlock m of
                          None \<Rightarrow> replicate 8 (indeterminate m)
                        | Some cb \<Rightarrow> cb globalID (the (g globalID)) childrenGlobalIDs);
                     g1 = insert_children (g(globalID := None))
                            (refine_children m (u32 (refLevel + 1))
                               (u32 (i * 2)) (u32 (j * 2)) (u32 (k * 2)))
                            childrenLocalIDs 0
                 in case refine_nbrs (refine fuel m) m g1 nbrs of
                      None \<Rightarrow> None
                    | Some g' \<Rightarrow> Some (True, g'))))"

text \<open>
  \<open>getGlobalID(x,y,z)\<close>. Coordinates are \<open>double\<close> in the source and real
  numbers here: the comparisons with the mesh limits are the same on both, the
  quotients below are those of the source only where they are computed without
  rounding. The second and the third test of the source compare \<open>x\<close>, not
  \<open>y\<close> and \<open>z\<close>, with the upper limit, and the number of blocks of level
  \<open>r\<close> is taken as \<open>bbox * (r+1)\<close>.
\<close>

fun getGlobalID_levels ::
  "AmrMesh \<Rightarrow> (GlobalID \<rightharpoonup> LocalID) \<Rightarrow> real \<Rightarrow> real \<Rightarrow> real \<Rightarrow> nat list \<Rightarrow> GlobalID" where
  "getGlobalID_levels m g x y z [] = INVALID_GLOBALID"
| "getGlobalID_levels m g x y z (r # rs) =
     (let Nx = u32 (bbox m ! 0 * (r + 1));
          Ny = u32 (bbox m ! 1 * (r + 1));
          Nz = u32 (bbox m ! 2 * (r + 1));
          dx = (meshLimits m ! 1 - meshLimits m ! 0) / real Nx;
          dy = (meshLimits m ! 3 - meshLimits m ! 2) / real Ny;
          dz = (meshLimits m ! 5 - meshLimits m ! 4) / real Nz;
          i = u32 (nat \<lfloor>(x - meshLimits m ! 0) / dx\<rfloor>);
          j = u32 (nat \<lfloor>(y - meshLimits m ! 2) / dy\<rfloor>);
          k = u32 (nat \<lfloor>(z - meshLimits m ! 4) / dz\<rfloor>);
          gID = getGlobalID m r i j k
      in if g gID \<noteq> None then gID else getGlobalID_levels m g x y z rs)"

definition getGlobalID_xyz ::
  "AmrMesh \<Rightarrow> (GlobalID \<rightharpoonup> LocalID) \<Rightarrow> real \<Rightarrow> real \<Rightarrow> real \<Rightarrow> GlobalID" where
  "getGlobalID_xyz m g x y z =
     (if x < meshLimits m ! 0 \<or> x > meshLimits m ! 1 then INVALID_GLOBALID
      else if y < meshLimits m ! 2 \<or> x > meshLimits m ! 3 then INVALID_GLOBALID
      else if z < meshLimits m ! 4 \<or> x > meshLimits m ! 5 then INVALID_GLOBALID
      else getGlobalID_levels m g x y z [0..<Suc (refLevelMaxAllowed m)])"


section \<open>The reader\<close>

text \<open>
  The footer tree is an external collaborator: \<open>xmlReader\<close> is its
  \<open>find(tagName, attribs)\<close>, which returns the matching node or \<open>NULL\<close>
  (\<open>None\<close>). A node carries its attribute map and its text value.
  \<open>attribute\<close> is \<open>node->attributes[key]\<close>, which yields the empty string
  for a key that is not in the map.
\<close>

datatype VLSV_datatype = VLSV_UNKNOWN | VLSV_INT | VLSV_UINT | VLSV_FLOAT

record XMLNode =
  attributes :: "string \<rightharpoonup> string"
  node_value :: string

definition attribute :: "XMLNode \<Rightarrow> string \<Rightarrow> string" where
  "attribute node key = (case attributes node key of None \<Rightarrow> [] | Some v \<Rightarrow> v)"

text \<open>
  \<open>atoi\<close> of the C library, as glibc has it: \<open>(int) strtol(s, NULL, 10)\<close>.
  \<open>decimal_text\<close> is the number a text writes: leading white space, an
  optional sign, then decimal digits up to the first other character.
  \<open>strtol\<close> saturates at the range of \<open>long\<close>, and the conversion to
  \<open>int\<close> keeps the low 32 bits, so \<open>atoi\<close> gives the written number
  only when that fits an \<open>int\<close>.
\<close>

definition isspace :: "char \<Rightarrow> bool" where
  "isspace c \<longleftrightarrow> (of_char c :: nat) = 32 \<or> (9 \<le> (of_char c :: nat) \<and> (of_char c :: nat) \<le> 13)"

definition isdigit :: "char \<Rightarrow> bool" where
  "isdigit c \<longleftrightarrow> 48 \<le> (of_char c :: nat) \<and> (of_char c :: nat) \<le> 57"

fun atoi_digits :: "nat \<Rightarrow> string \<Rightarrow> nat" where
  "atoi_digits acc [] = acc"
| "atoi_digits acc (c # cs) =
     (if isdigit c then atoi_digits (acc * 10 + (of_char c - 48)) cs else acc)"

definition decimal_text :: "string \<Rightarrow> int" where
  "decimal_text s =
     (case dropWhile isspace s of
        [] \<Rightarrow> 0
      | c # cs \<Rightarrow>
          if c = CHR ''-'' then - int (atoi_digits 0 cs)
          else if c = CHR ''+'' then int (atoi_digits 0 cs)
          else int (atoi_digits 0 (c # cs)))"

definition strtol :: "string \<Rightarrow> int" where
  "strtol s = max (- (2 ^ 63)) (min (2 ^ 63 - 1) (decimal_text s))"

definition int32 :: "int \<Rightarrow> int" where
  "int32 v = (v + 2 ^ 31) mod 2 ^ 32 - 2 ^ 31"

definition atoi :: "string \<Rightarrow> int" where
  "atoi s = int32 (strtol s)"

text \<open>Conversions between \<open>int\<close>, \<open>uint64_t\<close> and the signed 64-bit stream types.\<close>

definition u64_of_int :: "int \<Rightarrow> nat" where
  "u64_of_int x = nat (x mod 2 ^ 64)"

definition s64 :: "nat \<Rightarrow> int" where
  "s64 x = (if x mod 2 ^ 64 < 2 ^ 63 then int (x mod 2 ^ 64) else int (x mod 2 ^ 64) - 2 ^ 64)"

record ArrayOpen =
  offset :: int
  tagName :: string
  arraySize :: nat
  vectorSize :: nat
  dataType :: VLSV_datatype
  dataSize :: nat

text \<open>
  The input stream \<open>filein\<close>: the bytes of the file, the read position, the
  failure flag and the count of the last read. \<open>seekg\<close> and \<open>read\<close> do
  nothing on a failed stream; a read that reaches the end of the file delivers
  the bytes that are left and sets the flag.
\<close>

record ifstream =
  content :: "nat list"
  gpos :: nat
  failbit :: bool
  gcount :: nat

definition stream_clear :: "ifstream \<Rightarrow> ifstream" where
  "stream_clear f = f\<lparr>failbit := False\<rparr>"

definition seekg :: "ifstream \<Rightarrow> int \<Rightarrow> ifstream" where
  "seekg f p =
     (if failbit f then f
      else if p < 0 then f\<lparr>failbit := True\<rparr>
      else f\<lparr>gpos := nat p\<rparr>)"

definition stream_read :: "ifstream \<Rightarrow> nat list \<Rightarrow> int \<Rightarrow> ifstream \<times> nat list" where
  "stream_read f buffer n =
     (if failbit f then (f\<lparr>gcount := 0\<rparr>, buffer)
      else
        (let got = take (nat n) (drop (gpos f) (content f))
         in (f\<lparr>gpos := gpos f + length got, gcount := length got,
                failbit := (int (length got) \<noteq> n)\<rparr>,
             got @ drop (length got) buffer)))"

record VLSVReader =
  fileOpen :: bool
  xmlReader :: "string \<Rightarrow> (string \<times> string) list \<Rightarrow> XMLNode option"
  arrayOpen :: ArrayOpen
  filein :: ifstream

text \<open>
  \<open>VLSVReader::loadArray\<close>: the metadata of the tag are copied into
  \<open>arrayOpen\<close> field by field, so a failure after the copy leaves the copied
  fields behind.
\<close>

definition loadArray ::
  "VLSVReader \<Rightarrow> string \<Rightarrow> (string \<times> string) list \<Rightarrow> bool \<times> VLSVReader" where
  "loadArray r tag attribs =
     (if \<not> fileOpen r then (False, r)
      else case xmlReader r tag attribs of
        None \<Rightarrow> (False, r)
      | Some node \<Rightarrow>
          (let a = (arrayOpen r)\<lparr>offset := atoi (node_value node), tagName := tag,
                     arraySize := u64_of_int (atoi (attribute node ''arraysize'')),
                     vectorSize := u64_of_int (atoi (attribute node ''vectorsize'')),
                     dataSize := u64_of_int (atoi (attribute node ''datasize''))\<rparr>;
               t = attribute node ''datatype''
           in if t \<noteq> ''unknown'' \<and> t \<noteq> ''int'' \<and> t \<noteq> ''uint'' \<and> t \<noteq> ''float''
              then (False, r\<lparr>arrayOpen := a\<rparr>)
              else
                (let a' = a\<lparr>dataType := (if t = ''unknown'' then VLSV_UNKNOWN
                                           else if t = ''int'' then VLSV_INT
                                           else if t = ''uint'' then VLSV_UINT else VLSV_FLOAT)\<rparr>;
                     r' = r\<lparr>arrayOpen := a'\<rparr>
                 in if arraySize a' = 0 then (False, r')
                    else if vectorSize a' = 0 then (False, r')
                    else if dataSize a' = 0 then (False, r')
                    else (True, r'))))"

text \<open>
  \<open>VLSVReader::readArray\<close>. The result is the returned flag, the reader after
  the call and the caller's buffer after the call.
\<close>

definition readArray ::
  "VLSVReader \<Rightarrow> string \<Rightarrow> (string \<times> string) list \<Rightarrow> nat \<Rightarrow> nat \<Rightarrow> nat list
     \<Rightarrow> bool \<times> VLSVReader \<times> nat list" where
  "readArray r tag attribs begin amount buffer =
     (if \<not> fileOpen r then (False, r, buffer)
      else if amount = 0 then (True, r, buffer)
      else case xmlReader r tag attribs of
        None \<Rightarrow> (False, r, buffer)
      | Some node \<Rightarrow>
          (let a = (arrayOpen r)\<lparr>offset := atoi (node_value node), tagName := tag,
                     arraySize := u64_of_int (atoi (attribute node ''arraysize'')),
                     vectorSize := u64_of_int (atoi (attribute node ''vectorsize'')),
                     dataSize := u64_of_int (atoi (attribute node ''datasize''))\<rparr>;
               t = attribute node ''datatype''
           in if t \<noteq> ''int'' \<and> t \<noteq> ''uint'' \<and> t \<noteq> ''float''
              then (False, r\<lparr>arrayOpen := a\<rparr>, buffer)
              else
                (let a' = a\<lparr>dataType := (if t = ''int'' then VLSV_INT
                                           else if t = ''uint'' then VLSV_UINT else VLSV_FLOAT)\<rparr>;
                     r' = r\<lparr>arrayOpen := a'\<rparr>
                 in if arraySize a' = 0 then (False, r', buffer)
                    else if vectorSize a' = 0 then (False, r', buffer)
                    else if dataSize a' = 0 then (False, r', buffer)
                    else if u64 (begin + amount) > arraySize a' then (False, r', buffer)
                    else
                      (let start = s64 (u64 (u64_of_int (offset a')
                                     + u64 (begin * vectorSize a' * dataSize a')));
                           readBytes = s64 (u64 (amount * vectorSize a' * dataSize a'));
                           (f, buffer') =
                              stream_read (seekg (stream_clear (filein r')) start) buffer readBytes
                       in (int (gcount f) = readBytes, r'\<lparr>filein := f\<rparr>, buffer')))))"

section \<open>The metadata distribution protocol\<close>

text \<open>
  A group of processes is the list of their readers, indexed by rank; every
  process runs \<open>VLSVParReader::getArrayInfo(tagName, attribs)\<close>. A collective
  \<open>MPI_Bcast\<close> with root \<open>masterRank\<close> leaves the root's value in the
  buffer of every process.
\<close>

definition MPI_Bcast :: "nat \<Rightarrow> 'a list \<Rightarrow> 'a list" where
  "MPI_Bcast rootRank bufs = map (\<lambda>_. bufs ! rootRank) bufs"

definition getArrayInfo ::
  "nat \<Rightarrow> VLSVReader list \<Rightarrow> string \<Rightarrow> (string \<times> string) list \<Rightarrow> (bool \<times> VLSVReader) list" where
  "getArrayInfo masterRank procs tag attribs =
     (let local = map (\<lambda>(myRank, r).
                    if myRank = masterRank then loadArray r tag attribs else (True, r))
                  (enumerate 0 procs);
          globalSuccess =
            MPI_Bcast masterRank (map (\<lambda>(success, r). if success then 1 else (0::int)) local);
          infos = MPI_Bcast masterRank (map (\<lambda>(success, r). arrayOpen r) local)
      in map (\<lambda>((success, r), flag, info).
                if \<not> (success \<and> flag \<noteq> 0) then (False, r)
                else (success,
                      r\<lparr>arrayOpen := (arrayOpen r)\<lparr>offset := offset info,
                           arraySize := arraySize info, vectorSize := vectorSize info,
                           dataType := dataType info, dataSize := dataSize info\<rparr>\<rparr>))
             (zip local (zip globalSuccess infos)))"


section \<open>Valid meshes and example meshes\<close>

text \<open>
  \<open>mesh_ok\<close>: the block counts of the base grid are positive and the number
  of blocks of the deepest level fits 32 bits, so that no product in the
  address computations wraps around for an index inside the grid.
  \<open>in_bounds\<close>: a level and an index triple inside that level's grid.
  \<open>level_offset n0 l\<close> is entry \<open>l\<close> of the offsets table.
\<close>

definition mesh_ok :: "AmrMesh \<Rightarrow> bool" where
  "mesh_ok m \<longleftrightarrow>
     0 < bbox m ! 0 \<and> 0 < bbox m ! 1 \<and> 0 < bbox m ! 2 \<and>
     bbox m ! 0 * bbox m ! 1 * bbox m ! 2 * 8 ^ refLevelMaxAllowed m < 2 ^ 32"

definition in_bounds :: "AmrMesh \<Rightarrow> nat \<Rightarrow> nat \<Rightarrow> nat \<Rightarrow> nat \<Rightarrow> bool" where
  "in_bounds m l i j k \<longleftrightarrow>
     l \<le> refLevelMaxAllowed m \<and> i < bbox m ! 0 * 2 ^ l \<and> j < bbox m ! 1 * 2 ^ l \<and>
     k < bbox m ! 2 * 2 ^ l"

fun level_offset :: "nat \<Rightarrow> nat \<Rightarrow> nat" where
  "level_offset n0 0 = 0"
| "level_offset n0 (Suc l) = level_offset n0 l + n0 * 8 ^ l"

text \<open>A base grid of \<open>64 x 64 x 64\<close> blocks with five levels of refinement.\<close>

definition mesh64 :: AmrMesh where
  "mesh64 = \<lparr>bbox = [64, 64, 64, 1, 1, 1], refLevelMaxAllowed = 5,
     meshLimits = [0, 1, 0, 1, 0, 1], callbackCoarsenBlock = None,
     callbackRefineBlock = None, indeterminate = 0\<rparr>"

text \<open>
  \<open>declared node key\<close>: the number \<open>loadArray\<close> and \<open>readArray\<close>
  take from the attribute \<open>key\<close> of a tag, that is \<open>atoi\<close> of its text
  stored in a \<open>uint64_t\<close>. It is the written number when that is
  non-negative and below \<open>2^31\<close>.
\<close>

definition declared :: "XMLNode \<Rightarrow> string \<Rightarrow> nat" where
  "declared node key = u64_of_int (atoi (attribute node key))"

text \<open>
  A file with one array \<open>VAR\<close> of ten elements, each a vector of two bytes,
  stored from byte 4 on; a reader that has it open; and the reader of a process
  whose footer has no tag at all.
\<close>

definition node0 :: XMLNode where
  "node0 = \<lparr>attributes = [''arraysize'' \<mapsto> ''10'', ''vectorsize'' \<mapsto> ''2'',
                ''datasize'' \<mapsto> ''1'', ''datatype'' \<mapsto> ''uint''],
             node_value = ''4''\<rparr>"

definition footer0 :: "string \<Rightarrow> (string \<times> string) list \<Rightarrow> XMLNode option" where
  "footer0 tag attribs = (if tag = ''VAR'' then Some node0 else None)"

definition file0 :: ifstream where
  "file0 = \<lparr>content = [0, 0, 0, 0, 10, 11, 12, 13, 14, 15, 16, 17, 18, 19, 20, 21, 22, 23,
                24, 25, 26, 27, 28, 29],
             gpos = 16, failbit = False, gcount = 0\<rparr>"

definition reader0 :: VLSVReader where
  "reader0 = \<lparr>fileOpen = True, xmlReader = footer0,
     arrayOpen = \<lparr>offset = 0, tagName = [], arraySize = 0, vectorSize = 0,
                   dataType = VLSV_UNKNOWN, dataSize = 0\<rparr>,
     filein = file0\<rparr>"

definition worker0 :: VLSVReader where
  "worker0 = \<lparr>fileOpen = True, xmlReader = (\<lambda>tag attribs. None),
     arrayOpen = \<lparr>offset = 0, tagName = [], arraySize = 0, vectorSize = 0,
                   dataType = VLSV_UNKNOWN, dataSize = 0\<rparr>,
     filein = file0\<rparr>"

section \<open>Geometry of the block tree\<close>

text \<open>
  The vocabulary of the statements about \<open>refine\<close> and \<open>coarsen\<close>.
  \<open>valid_id m a\<close>: \<open>a\<close> is the address of a block inside the grid of its
  level. \<open>refLevel_of m a\<close>: the level \<open>getIndices\<close> finds for \<open>a\<close>.
  \<open>near\<close>: two indices differ by at most one.
\<close>

definition valid_id :: "AmrMesh \<Rightarrow> GlobalID \<Rightarrow> bool" where
  "valid_id m a \<longleftrightarrow>
     (case getIndices m a of (l, i, j, k) \<Rightarrow> in_bounds m l i j k \<and> getGlobalID m l i j k = a)"

definition refLevel_of :: "AmrMesh \<Rightarrow> GlobalID \<Rightarrow> nat" where
  "refLevel_of m a = fst (getIndices m a)"

definition near :: "nat \<Rightarrow> nat \<Rightarrow> bool" where
  "near a b \<longleftrightarrow> a \<le> b + 1 \<and> b \<le> a + 1"

text \<open>
  \<open>ancestor m a b\<close>: block \<open>a\<close> is \<open>b\<close> or contains \<open>b\<close>, that is the
  indices of \<open>b\<close> halved once per level of difference are those of \<open>a\<close>.
\<close>

definition ancestor :: "AmrMesh \<Rightarrow> GlobalID \<Rightarrow> GlobalID \<Rightarrow> bool" where
  "ancestor m a b \<longleftrightarrow>
     (case getIndices m a of (la, ia, ja, ka) \<Rightarrow>
      case getIndices m b of (lb, ib, jb, kb) \<Rightarrow>
        la \<le> lb \<and> ia = ib div 2 ^ (lb - la) \<and> ja = jb div 2 ^ (lb - la)
        \<and> ka = kb div 2 ^ (lb - la))"

text \<open>
  \<open>refines_to m L g g'\<close>: what a call of \<open>refine\<close> on a block of level
  \<open>L\<close> may do to the mapping. A new entry is a block inside the grid, of level
  at most \<open>L + 1\<close>, that lies strictly inside a block of the old mapping; a
  removed entry has level at most \<open>L\<close>.
\<close>

definition refines_to ::
  "AmrMesh \<Rightarrow> nat \<Rightarrow> (GlobalID \<rightharpoonup> LocalID) \<Rightarrow> (GlobalID \<rightharpoonup> LocalID) \<Rightarrow> bool" where
  "refines_to m L g g' \<longleftrightarrow>
     (\<forall>b. g' b \<noteq> None \<longrightarrow>
        g b \<noteq> None \<or>
        (valid_id m b \<and> refLevel_of m b \<le> L + 1 \<and>
         (\<exists>p. g p \<noteq> None \<and> ancestor m p b \<and> refLevel_of m p < refLevel_of m b)))
     \<and> (\<forall>b. g b \<noteq> None \<longrightarrow> g' b \<noteq> None \<or> refLevel_of m b \<le> L)"

text \<open>
  \<open>touching m a b\<close>: the closed boxes of the two blocks meet (in a face, an
  edge or a corner, or they overlap); the indices are compared in units of the
  deepest level. \<open>adjacent\<close>: geometric neighbours, that is touching blocks
  neither of which contains the other.
\<close>

definition touching :: "AmrMesh \<Rightarrow> GlobalID \<Rightarrow> GlobalID \<Rightarrow> bool" where
  "touching m a b \<longleftrightarrow>
     (case getIndices m a of (la, ia, ja, ka) \<Rightarrow>
      case getIndices m b of (lb, ib, jb, kb) \<Rightarrow>
        (let sa = 2 ^ (refLevelMaxAllowed m - la); sb = 2 ^ (refLevelMaxAllowed m - lb)
         in ia * sa \<le> (ib + 1) * sb \<and> ib * sb \<le> (ia + 1) * sa
            \<and> ja * sa \<le> (jb + 1) * sb \<and> jb * sb \<le> (ja + 1) * sa
            \<and> ka * sa \<le> (kb + 1) * sb \<and> kb * sb \<le> (ka + 1) * sa))"

definition adjacent :: "AmrMesh \<Rightarrow> GlobalID \<Rightarrow> GlobalID \<Rightarrow> bool" where
  "adjacent m a b \<longleftrightarrow> touching m a b \<and> \<not> ancestor m a b \<and> \<not> ancestor m b a"

text \<open>
  \<open>mesh_wf\<close>: every key of the mapping is the address of a block inside the
  grid, and the keys are leaves: none contains another.
  \<open>balanced\<close>: the 2:1 balance invariant, the levels of two geometric
  neighbours of the mapping differ by at most one.
\<close>

definition mesh_wf :: "AmrMesh \<Rightarrow> (GlobalID \<rightharpoonup> LocalID) \<Rightarrow> bool" where
  "mesh_wf m g \<longleftrightarrow>
     (\<forall>a. g a \<noteq> None \<longrightarrow> valid_id m a)
     \<and> (\<forall>a b. g a \<noteq> None \<longrightarrow> g b \<noteq> None \<longrightarrow> ancestor m a b \<longrightarrow> a = b)"

definition balanced :: "AmrMesh \<Rightarrow> (GlobalID \<rightharpoonup> LocalID) \<Rightarrow> bool" where
  "balanced m g \<longleftrightarrow>
     (\<forall>a b. g a \<noteq> None \<longrightarrow> g b \<noteq> None \<longrightarrow> adjacent m a b \<longrightarrow>
        refLevel_of m a \<le> refLevel_of m b + 1 \<and> refLevel_of m b \<le> refLevel_of m a + 1)"

text \<open>
  \<open>octet_neighbor m a n\<close>: \<open>n\<close> is the address of a block inside the grid, of
  the level of \<open>a\<close>, that lies next to the \<open>2 x 2 x 2\<close> octet of \<open>a\<close> and its
  siblings and is not one of the eight.
\<close>

definition octet_neighbor :: "AmrMesh \<Rightarrow> GlobalID \<Rightarrow> GlobalID \<Rightarrow> bool" where
  "octet_neighbor m a n \<longleftrightarrow>
     (case getIndices m a of (l, i, j, k) \<Rightarrow>
      case getIndices m n of (l', i', j', k') \<Rightarrow>
        valid_id m n \<and> l' = l
        \<and> 2 * (i div 2) \<le> i' + 1 \<and> i' \<le> 2 * (i div 2) + 2
        \<and> 2 * (j div 2) \<le> j' + 1 \<and> j' \<le> 2 * (j div 2) + 2
        \<and> 2 * (k div 2) \<le> k' + 1 \<and> k' \<le> 2 * (k div 2) + 2
        \<and> \<not> (i' div 2 = i div 2 \<and> j' div 2 = j div 2 \<and> k' div 2 = k div 2))"

text \<open>
  \<open>block_at m x y z r\<close>: the address that the loop body of
  \<open>getGlobalID(x,y,z)\<close> computes for level \<open>r\<close>.
\<close>

definition block_at :: "AmrMesh \<Rightarrow> real \<Rightarrow> real \<Rightarrow> real \<Rightarrow> nat \<Rightarrow> GlobalID" where
  "block_at m x y z r =
     (let Nx = u32 (bbox m ! 0 * (r + 1));
          Ny = u32 (bbox m ! 1 * (r + 1));
          Nz = u32 (bbox m ! 2 * (r + 1));
          dx = (meshLimits m ! 1 - meshLimits m ! 0) / real Nx;
          dy = (meshLimits m ! 3 - meshLimits m ! 2) / real Ny;
          dz = (meshLimits m ! 5 - meshLimits m ! 4) / real Nz;
          i = u32 (nat \<lfloor>(x - meshLimits m ! 0) / dx\<rfloor>);
          j = u32 (nat \<lfloor>(y - meshLimits m ! 2) / dy\<rfloor>);
          k = u32 (nat \<lfloor>(z - meshLimits m ! 4) / dz\<rfloor>)
      in getGlobalID m r i j k)"

text \<open>
  Example meshes on the unit cube, without callbacks. \<open>mesh1\<close>: one base
  block and one level of refinement; \<open>blocks1\<close> is its mapping after
  \<open>initialize\<close> at level 1 has skipped block 2. \<open>mesh2\<close>: two base blocks
  along x and one level of refinement; \<open>leaves2\<close> holds the two base blocks.
\<close>

definition mesh1 :: AmrMesh where
  "mesh1 = \<lparr>bbox = [1, 1, 1, 1, 1, 1], refLevelMaxAllowed = 1,
     meshLimits = [0, 1, 0, 1, 0, 1], callbackCoarsenBlock = None,
     callbackRefineBlock = None, indeterminate = 0\<rparr>"

definition blocks1 :: "GlobalID \<rightharpoonup> LocalID" where
  "blocks1 = [1 \<mapsto> INVALID_LOCALID, 3 \<mapsto> INVALID_LOCALID, 4 \<mapsto> INVALID_LOCALID,
              5 \<mapsto> INVALID_LOCALID, 6 \<mapsto> INVALID_LOCALID, 7 \<mapsto> INVALID_LOCALID,
              8 \<mapsto> INVALID_LOCALID]"

definition mesh2 :: AmrMesh where
  "mesh2 = \<lparr>bbox = [2, 1, 1, 1, 1, 1], refLevelMaxAllowed = 1,
     meshLimits = [0, 1, 0, 1, 0, 1], callbackCoarsenBlock = None,
     callbackRefineBlock = None, indeterminate = 0\<rparr>"

definition leaves2 :: "GlobalID \<rightharpoonup> LocalID" where
  "leaves2 = [0 \<mapsto> INVALID_LOCALID, 1 \<mapsto> INVALID_LOCALID]"

text \<open>
  \<open>mesh3\<close>: one base block and three levels of refinement; level 1 has the
  addresses \<open>1 .. 8\<close>, level 2 the addresses \<open>9 .. 72\<close> (\<open>9 + 16 k + 4 j + i\<close>),
  level 3 the addresses from \<open>73\<close> (\<open>73 + 64 k + 8 j + i\<close>).
  \<open>leaves3\<close> is the mapping after \<open>initialize\<close> at level 1,
  \<open>refine(1)\<close> and \<open>refine(13)\<close>, the second of which also refines block 3:
  the blocks \<open>2, 4 .. 8\<close> of level 1, the children of 1 but 13, the children of
  3, and the children of 13. \<open>refined3\<close> is \<open>leaves3\<close> with block 2
  replaced by its eight children.
\<close>

definition mesh3 :: AmrMesh where
  "mesh3 = \<lparr>bbox = [1, 1, 1, 1, 1, 1], refLevelMaxAllowed = 3,
     meshLimits = [0, 1, 0, 1, 0, 1], callbackCoarsenBlock = None,
     callbackRefineBlock = None, indeterminate = 0\<rparr>"

definition leaves3 :: "GlobalID \<rightharpoonup> LocalID" where
  "leaves3 = [2 \<mapsto> 0, 4 \<mapsto> 0, 5 \<mapsto> 0, 6 \<mapsto> 0, 7 \<mapsto> 0, 8 \<mapsto> 0,
              9 \<mapsto> 0, 10 \<mapsto> 0, 14 \<mapsto> 0, 25 \<mapsto> 0, 26 \<mapsto> 0, 29 \<mapsto> 0, 30 \<mapsto> 0,
              17 \<mapsto> 0, 18 \<mapsto> 0, 21 \<mapsto> 0, 22 \<mapsto> 0, 33 \<mapsto> 0, 34 \<mapsto> 0, 37 \<mapsto> 0, 38 \<mapsto> 0,
              89 \<mapsto> 0, 90 \<mapsto> 0, 97 \<mapsto> 0, 98 \<mapsto> 0, 153 \<mapsto> 0, 154 \<mapsto> 0, 161 \<mapsto> 0,
              162 \<mapsto> 0]"

definition refined3 :: "GlobalID \<rightharpoonup> LocalID" where
  "refined3 = leaves3(2 := None, 11 \<mapsto> 0, 12 \<mapsto> 0, 15 \<mapsto> 0, 16 \<mapsto> 0, 27 \<mapsto> 0, 28 \<mapsto> 0,
                31 \<mapsto> 0, 32 \<mapsto> 0)"

section \<open>Evaluation on concrete meshes\<close>

lemma offsets_upto_numeral:
  "offsets_upto n0 (numeral v) =
     (let os = offsets_upto n0 (pred_numeral v) in os @ [last os + n0 * 8 ^ pred_numeral v])"
  by (simp add: numeral_eq_Suc)

lemma mesh64_fields:
  "bbox mesh64 = [64, 64, 64, 1, 1, 1]" "refLevelMaxAllowed mesh64 = 5"
  by (simp_all add: mesh64_def)

lemma mesh64_offsets:
  "offsets mesh64 = [0, 262144, 2359296, 19136512, 153354240, 1227096064]"
  by (simp add: mesh64_fields offsets_def N_blocks0_def u32_def offsets_upto_numeral Let_def)

section \<open>Global addressing\<close>

text \<open>
  C1 (code defect). For indices inside the grid of their level, \<open>getIndices\<close>
  applied to \<open>getGlobalID(level,i,j,k)\<close> should give back \<open>(level,i,j,k)\<close>.
  On a base grid of \<open>64 x 64 x 64\<close> blocks with five levels, level 5 has
  \<open>2048\<close> blocks along each axis, so \<open>(i,j,k) = (0,0,1024)\<close> is inside the
  grid; the 32-bit product \<open>k*bbox[1]*bbox[0]*multiplier*multiplier = 2^32\<close>
  wraps to \<open>0\<close>, the address is that of \<open>(0,0,0)\<close>, and \<open>getIndices\<close>
  returns \<open>(5,0,0,0)\<close>.
\<close>

theorem C1_getGlobalID_wraps:
  "in_bounds mesh64 5 0 0 1024
   \<and> getGlobalID mesh64 5 0 0 1024 = getGlobalID mesh64 5 0 0 0
   \<and> getIndices mesh64 (getGlobalID mesh64 5 0 0 1024) = (5, 0, 0, 0)"
proof (intro conjI)
  show "in_bounds mesh64 5 0 0 1024"
    by (simp add: in_bounds_def mesh64_fields)
  show "getGlobalID mesh64 5 0 0 1024 = getGlobalID mesh64 5 0 0 0"
    by (simp add: getGlobalID_def mesh64_fields mesh64_offsets u32_def u64_def Let_def
          cong: let_weak_cong)
  show "getIndices mesh64 (getGlobalID mesh64 5 0 0 1024) = (5, 0, 0, 0)"
    by (simp add: getIndices_def getGlobalID_def mesh64_fields mesh64_offsets u32_def u64_def
          sub64_def add_off_def upper_bound_def Let_def cong: let_weak_cong)
qed


section \<open>Addresses of blocks inside the grid\<close>

text \<open>
  On a mesh that satisfies \<open>mesh_ok\<close> the address of an index triple inside
  the grid is computed without wrap-around, and \<open>getIndices\<close> inverts it.
\<close>

lemma offsets_upto_map: "offsets_upto n0 L = map (level_offset n0) [0..<Suc L]"
  by (induction L) (simp_all add: Let_def last_map)

lemma level_offset_mono: "l \<le> l' \<Longrightarrow> level_offset n0 l \<le> level_offset n0 l'"
  by (induction l' ) (auto simp: le_Suc_eq)

lemma level_offset_less: "0 < n0 \<Longrightarrow> l < l' \<Longrightarrow> level_offset n0 l < level_offset n0 l'"
proof (induction l')
  case 0
  then show ?case by simp
next
  case (Suc l')
  have "level_offset n0 l \<le> level_offset n0 l'"
    using Suc.prems(2) by (intro level_offset_mono) simp
  moreover have "0 < n0 * 8 ^ l'" using Suc.prems(1) by simp
  ultimately show ?case unfolding level_offset.simps by linarith
qed

lemma upper_bound_map:
  assumes "l \<le> L" and "level_offset n0 l \<le> v"
    and "l < L \<Longrightarrow> v < level_offset n0 (Suc l)"
  shows "upper_bound (map (level_offset n0) [0..<Suc L]) v = Suc l"
proof -
  have split: "[0..<Suc L] = [0..<Suc l] @ [Suc l..<Suc L]"
    using assms(1) by (metis Suc_le_mono le0 upt_add_eq_append le_Suc_ex)
  have pre: "\<forall>x\<in>set (map (level_offset n0) [0..<Suc l]). x \<le> v"
  proof
    fix x assume "x \<in> set (map (level_offset n0) [0..<Suc l])"
    then obtain a where a: "a < Suc l" "x = level_offset n0 a"
      by (auto simp del: upt_Suc)
    from a(1) have "a \<le> l" by simp
    from level_offset_mono[OF this, of n0] assms(2) a(2) show "x \<le> v" by simp
  qed
  have post: "takeWhile (\<lambda>x. x \<le> v) (map (level_offset n0) [Suc l..<Suc L]) = []"
  proof (cases "l < L")
    case True
    then have "[Suc l..<Suc L] = Suc l # [Suc (Suc l)..<Suc L]"
      by (simp add: upt_conv_Cons)
    then show ?thesis using assms(3)[OF True] by (simp del: upt_Suc)
  next
    case False
    then have "l = L" using assms(1) by simp
    then show ?thesis by simp
  qed
  have "takeWhile (\<lambda>x. x \<le> v)
          (map (level_offset n0) [0..<Suc l] @ map (level_offset n0) [Suc l..<Suc L])
        = map (level_offset n0) [0..<Suc l]
          @ takeWhile (\<lambda>x. x \<le> v) (map (level_offset n0) [Suc l..<Suc L])"
    by (rule takeWhile_append2) (use pre in blast)
  then have "takeWhile (\<lambda>x. x \<le> v) (map (level_offset n0) [0..<Suc L])
        = map (level_offset n0) [0..<Suc l]"
    unfolding post using split by (metis append_Nil2 map_append)
  then show ?thesis by (simp add: upper_bound_def)
qed

lemma N_blocks0_ok: "mesh_ok m \<Longrightarrow> N_blocks0 m = bbox m ! 0 * bbox m ! 1 * bbox m ! 2"
proof -
  assume ok: "mesh_ok m"
  let ?n = "bbox m ! 0 * bbox m ! 1 * bbox m ! 2"
  have "?n * 1 \<le> ?n * 8 ^ refLevelMaxAllowed m"
    by (rule mult_le_mono2) simp
  moreover have "?n * 8 ^ refLevelMaxAllowed m < 2 ^ 32"
    using ok unfolding mesh_ok_def by blast
  ultimately have "?n < 2 ^ 32" by linarith
  then show ?thesis by (simp add: N_blocks0_def u32_def)
qed

lemma mesh_ok_level:
  assumes "mesh_ok m" "l \<le> refLevelMaxAllowed m"
  shows "bbox m ! 0 * bbox m ! 1 * bbox m ! 2 * 8 ^ l < 2 ^ 32"
proof -
  have "(8::nat) ^ l \<le> 8 ^ refLevelMaxAllowed m"
    using assms(2) by (simp add: power_increasing)
  then have "bbox m ! 0 * bbox m ! 1 * bbox m ! 2 * 8 ^ l
        \<le> bbox m ! 0 * bbox m ! 1 * bbox m ! 2 * 8 ^ refLevelMaxAllowed m"
    by (rule mult_le_mono2)
  moreover have "bbox m ! 0 * bbox m ! 1 * bbox m ! 2 * 8 ^ refLevelMaxAllowed m < 2 ^ 32"
    using assms(1) unfolding mesh_ok_def by blast
  ultimately show ?thesis by linarith
qed

lemma level_cells:
  "(b0 * 2 ^ l) * (b1 * 2 ^ l) * (b2 * 2 ^ l) = b0 * b1 * b2 * (8::nat) ^ l"
proof -
  have "(8::nat) ^ l = 2 ^ l * 2 ^ l * 2 ^ l"
    by (simp add: power_mult_distrib[symmetric])
  then show ?thesis by (simp add: algebra_simps)
qed

lemma index_bound:
  fixes i j k Nx Ny Nz :: nat
  assumes "i < Nx" "j < Ny" "k < Nz"
  shows "(k * Ny + j) * Nx + i < Nx * Ny * Nz"
proof -
  have "(k * Ny + j) * Nx + i < (k * Ny + j) * Nx + Nx" using assms(1) by simp
  also have "\<dots> = (k * Ny + j + 1) * Nx" by (simp add: algebra_simps)
  also have "\<dots> \<le> (k * Ny + Ny) * Nx"
    using assms(2) by (intro mult_le_mono1) simp
  also have "\<dots> = (k + 1) * (Ny * Nx)" by (simp add: algebra_simps)
  also have "\<dots> \<le> Nz * (Ny * Nx)"
    using assms(3) by (intro mult_le_mono1) simp
  finally show ?thesis by (simp add: algebra_simps)
qed

lemma level_offset_le: "level_offset n0 l \<le> n0 * 8 ^ l"
  by (induction l) (simp_all)

lemma offsets_nth:
  "l \<le> refLevelMaxAllowed m \<Longrightarrow> offsets m ! l = level_offset (N_blocks0 m) l"
  unfolding offsets_def offsets_upto_map
  by (metis add_0 le_imp_less_Suc nth_map_upt diff_zero)

lemma mesh_ok_pow2:
  assumes "mesh_ok m" "l \<le> refLevelMaxAllowed m"
  shows "(2::nat) ^ l < 2 ^ 32"
proof -
  have pos: "0 < bbox m ! 0 * bbox m ! 1 * bbox m ! 2"
    using assms(1) unfolding mesh_ok_def by simp
  have "(2::nat) ^ l \<le> 8 ^ l" by (rule power_mono) simp_all
  also have "\<dots> = 1 * 8 ^ l" by simp
  also have "\<dots> \<le> bbox m ! 0 * bbox m ! 1 * bbox m ! 2 * 8 ^ l"
    using pos by (intro mult_le_mono1) linarith
  also have "\<dots> < 2 ^ 32" by (rule mesh_ok_level[OF assms])
  finally show ?thesis .
qed

lemma getGlobalID_ok:
  assumes ok: "mesh_ok m" and ib: "in_bounds m l i j k"
  shows "getGlobalID m l i j k =
           level_offset (N_blocks0 m) l
           + (k * (bbox m ! 1 * 2 ^ l) + j) * (bbox m ! 0 * 2 ^ l) + i"
proof -
  define Nx where "Nx = bbox m ! 0 * 2 ^ l"
  define Ny where "Ny = bbox m ! 1 * 2 ^ l"
  define Nz where "Nz = bbox m ! 2 * 2 ^ l"
  define n where "n = bbox m ! 0 * bbox m ! 1 * bbox m ! 2"
  have l: "l \<le> refLevelMaxAllowed m" and i: "i < Nx" and j: "j < Ny" and k: "k < Nz"
    using ib by (simp_all add: in_bounds_def Nx_def Ny_def Nz_def)
  have cells: "Nx * Ny * Nz = n * 8 ^ l"
    unfolding Nx_def Ny_def Nz_def n_def by (rule level_cells)
  have small: "n * 8 ^ l < 2 ^ 32"
    unfolding n_def by (rule mesh_ok_level[OF ok l])
  have idx: "(k * Ny + j) * Nx + i < n * 8 ^ l"
    using index_bound[OF i j k] cells by simp
  have p2: "u32 (2 ^ l) = 2 ^ l"
    using mesh_ok_pow2[OF ok l] by (simp add: u32_def)
  have kterm: "k * (bbox m ! 1) * (bbox m ! 0) * 2 ^ l * 2 ^ l = k * Ny * Nx"
    by (simp add: Nx_def Ny_def algebra_simps)
  have jterm: "j * (bbox m ! 0) * 2 ^ l = j * Nx"
    by (simp add: Nx_def algebra_simps)
  have expand: "(k * Ny + j) * Nx + i = k * Ny * Nx + j * Nx + i"
    by (simp add: algebra_simps)
  have kb: "k * Ny * Nx < 2 ^ 32" and jb: "j * Nx < 2 ^ 32"
    using idx small unfolding expand by linarith+
  have off: "offsets m ! l = level_offset (N_blocks0 m) l"
    by (rule offsets_nth[OF l])
  have n0: "N_blocks0 m = n" unfolding n_def by (rule N_blocks0_ok[OF ok])
  have "level_offset n l \<le> n * 8 ^ l" by (rule level_offset_le)
  then have total: "level_offset n l + k * Ny * Nx + j * Nx + i < 2 ^ 64"
    using idx small unfolding expand by simp
  have "getGlobalID m l i j k
        = u64 (level_offset n l + u32 (k * Ny * Nx) + u32 (j * Nx) + i)"
    unfolding getGlobalID_def Let_def p2 kterm jterm off n0 ..
  also have "\<dots> = level_offset n l + k * Ny * Nx + j * Nx + i"
    using kb jb total by (simp add: u32_def u64_def)
  finally show ?thesis
    unfolding n0 Nx_def[symmetric] Ny_def[symmetric] by (simp add: algebra_simps)
qed

lemma sub64_le: "b \<le> a \<Longrightarrow> a < 2 ^ 64 \<Longrightarrow> sub64 a b = a - b"
proof -
  assume ba: "b \<le> a" and a: "a < 2 ^ 64"
  from ba a have "b < 2 ^ 64" by (rule le_less_trans)
  then have 1: "b mod 2 ^ 64 = b" by (rule mod_less)
  have 2: "a + 2 ^ 64 - b = (a - b) + 2 ^ 64" using ba by (rule Nat.diff_add_assoc2)
  have "a - b \<le> a" by (rule diff_le_self)
  then have "a - b < 2 ^ 64" using a by (rule le_less_trans)
  then have 3: "(a - b) mod 2 ^ 64 = a - b" by (rule mod_less)
  show ?thesis unfolding sub64_def 1 2 mod_add_self2 3 ..
qed

lemma add_off_pred: "l < 2 ^ 32 \<Longrightarrow> add_off (Suc l) (- 1) = l"
proof -
  assume "l < 2 ^ 32"
  then have "int l mod 2 ^ 32 = int l"
    by (metis mod_less of_nat_mod of_nat_numeral of_nat_power)
  moreover have "int (Suc l) + - 1 = int l" by simp
  ultimately show ?thesis unfolding add_off_def by simp
qed

lemma u32_id: "x < 2 ^ 32 \<Longrightarrow> u32 x = x"
  unfolding u32_def by (rule mod_less)

lemma u64_id: "x < 2 ^ 64 \<Longrightarrow> u64 x = x"
  unfolding u64_def by (rule mod_less)

lemma u64_id32: "x < 2 ^ 32 \<Longrightarrow> u64 x = x"
proof (rule u64_id)
  assume "x < 2 ^ 32"
  also have "(2::nat) ^ 32 < 2 ^ 64" by simp
  finally show "x < 2 ^ 64" .
qed

lemma less_of_mult_less:
  fixes a b c :: nat
  assumes "a * b < c" "0 < b"
  shows "a < c"
proof -
  have "a \<le> a * b" using assms(2) by (cases b) simp_all
  with assms(1) show ?thesis by linarith
qed

lemma getIndices_ok:
  fixes m l idx
  defines "Nx \<equiv> bbox m ! 0 * 2 ^ l" and "Ny \<equiv> bbox m ! 1 * 2 ^ l"
  assumes ok: "mesh_ok m" and l: "l \<le> refLevelMaxAllowed m"
    and idx: "idx < N_blocks0 m * 8 ^ l"
  shows "getIndices m (level_offset (N_blocks0 m) l + idx) =
           (l, idx mod (Ny * Nx) mod Nx, idx mod (Ny * Nx) div Nx, idx div (Ny * Nx))"
proof -
  define n where "n = N_blocks0 m"
  define lo where "lo = level_offset n l"
  define g where "g = lo + idx"
  define Nz where "Nz = bbox m ! 2 * 2 ^ l"
  define K where "K = idx div (Ny * Nx)"
  define R where "R = idx mod (Ny * Nx)"
  define J where "J = R div Nx"
  have n: "n = bbox m ! 0 * bbox m ! 1 * bbox m ! 2"
    unfolding n_def by (rule N_blocks0_ok[OF ok])
  have small: "n * 8 ^ l < 2 ^ 32"
    unfolding n by (rule mesh_ok_level[OF ok l])
  have idx': "idx < n * 8 ^ l" using idx by (simp add: n_def)
  have idx32: "idx < 2 ^ 32" using idx' small by simp
  have lo_le: "lo \<le> n * 8 ^ l" unfolding lo_def by (rule level_offset_le)
  have g64: "g < 2 ^ 64" using lo_le idx32 small by (simp add: g_def)
  have cells: "Nx * Ny * Nz = n * 8 ^ l"
    unfolding Nx_def Ny_def Nz_def n by (rule level_cells)
  have pos: "0 < Nx" "0 < Ny" "0 < Nz"
    using ok by (simp_all add: mesh_ok_def Nx_def Ny_def Nz_def)
  have "Nx * Ny * Nz < 2 ^ 32" using small unfolding cells .
  then have "Nx * Ny < 2 ^ 32" using pos(3) by (rule less_of_mult_less)
  then have Nx32: "Nx < 2 ^ 32" using pos(2) by (rule less_of_mult_less)
  have NxNy: "Ny * Nx < 2 ^ 32" using \<open>Nx * Ny < 2 ^ 32\<close> by (simp only: mult.commute)
  then have Ny32: "Ny < 2 ^ 32" using pos(1) by (rule less_of_mult_less)
  have l32: "l < 2 ^ 32"
    using mesh_ok_pow2[OF ok l] less_exp[of l] by (meson less_trans)
  have ub: "upper_bound (offsets m) g = Suc l"
    unfolding offsets_def offsets_upto_map n_def[symmetric]
  proof (rule upper_bound_map[OF l])
    show "level_offset n l \<le> g" by (simp add: g_def lo_def)
    show "g < level_offset n (Suc l)" using idx' by (simp add: g_def lo_def)
  qed
  have f1: "add_off (upper_bound (offsets m) g) (- 1) = l"
    unfolding ub by (rule add_off_pred[OF l32])
  have f2: "offsets m ! l = lo"
    unfolding lo_def n_def by (rule offsets_nth[OF l])
  have f3: "u64 (2 ^ l) = 2 ^ l"
    by (rule u64_id32[OF mesh_ok_pow2[OF ok l]])
  have f4: "u64 (bbox m ! 0 * 2 ^ l) = Nx"
    unfolding Nx_def[symmetric] by (rule u64_id32[OF Nx32])
  have f5: "u64 (bbox m ! 1 * 2 ^ l) = Ny"
    unfolding Ny_def[symmetric] by (rule u64_id32[OF Ny32])
  have f6: "sub64 g lo = idx"
    using sub64_le[of lo g, OF _ g64] by (simp add: g_def)
  have f7: "u64 (Ny * Nx) = Ny * Nx"
    by (rule u64_id32[OF NxNy])
  have K_le: "K * (Ny * Nx) \<le> idx"
    unfolding K_def by (rule div_times_less_eq_dividend)
  have "K \<le> idx" unfolding K_def by (rule div_le_dividend)
  then have K32: "K < 2 ^ 32" using idx32 by (rule le_less_trans)
  have f8: "u32 (idx div (Ny * Nx)) = K"
    unfolding K_def[symmetric] by (rule u32_id[OF K32])
  have KNN: "K * Ny * Nx \<le> idx" using K_le by (simp only: mult.assoc)
  then have "K * Ny * Nx < 2 ^ 32" using idx32 by (rule le_less_trans)
  then have f9: "u64 (K * Ny * Nx) = K * Ny * Nx" by (rule u64_id32)
  have idx64: "idx < 2 ^ 64" using u64_id32[OF idx32] by (simp add: u64_def)
  have "idx - K * (Ny * Nx) = R"
    unfolding K_def R_def by (simp add: minus_div_mult_eq_mod)
  then have f10: "sub64 idx (K * Ny * Nx) = R"
    using sub64_le[OF KNN idx64] by (simp only: mult.assoc)
  have R_le: "R \<le> idx" unfolding R_def by (rule mod_less_eq_dividend)
  then have R32: "R < 2 ^ 32" using idx32 by (rule le_less_trans)
  have R64: "R < 2 ^ 64" using R_le idx64 by (rule le_less_trans)
  have J_le: "J * Nx \<le> R" unfolding J_def by (rule div_times_less_eq_dividend)
  have "J \<le> R" unfolding J_def by (rule div_le_dividend)
  then have J32: "J < 2 ^ 32" using R32 by (rule le_less_trans)
  have f11: "u32 (R div Nx) = J"
    unfolding J_def[symmetric] by (rule u32_id[OF J32])
  have "J * Nx < 2 ^ 32" using J_le R32 by (rule le_less_trans)
  then have f12: "u64 (J * Nx) = J * Nx" by (rule u64_id32)
  have "R - J * Nx = R mod Nx"
    unfolding J_def by (simp add: minus_div_mult_eq_mod)
  then have s13: "sub64 R (J * Nx) = R mod Nx"
    using sub64_le[OF J_le R64] by simp
  have "R mod Nx \<le> R" by (rule mod_less_eq_dividend)
  then have "R mod Nx < 2 ^ 32" using R32 by (rule le_less_trans)
  then have f13: "u32 (sub64 R (J * Nx)) = R mod Nx"
    unfolding s13 by (rule u32_id)
  have "getIndices m g = (l, R mod Nx, J, K)"
    unfolding getIndices_def Let_def f1 f2 f3 f4 f5 f6 f7 f8 f9 f10 f11 f12 f13 ..
  then show ?thesis
    unfolding g_def lo_def n_def R_def J_def K_def .
qed


section \<open>Reading an array\<close>

lemma s64_id: "x < 2 ^ 63 \<Longrightarrow> s64 x = int x"
proof -
  assume x: "x < 2 ^ 63"
  also have "(2::nat) ^ 63 < 2 ^ 64" by simp
  finally have "x mod 2 ^ 64 = x" by (rule mod_less)
  then show ?thesis unfolding s64_def using x by simp
qed

lemma u64_of_int_nat: "0 \<le> x \<Longrightarrow> x < 2 ^ 63 \<Longrightarrow> u64_of_int x = nat x"
proof -
  assume x: "0 \<le> x" "x < 2 ^ 63"
  have "x < 2 ^ 64" using x(2) by (rule less_trans) simp
  with x(1) have "x mod 2 ^ 64 = x" by (rule mod_pos_pos_trivial)
  then show ?thesis unfolding u64_of_int_def by simp
qed

lemma stream_read_full:
  assumes s: "0 \<le> start" and n: "0 < n"
    and rd: "stream_read (seekg (stream_clear f0) start) buffer n = (f, buffer')"
    and cnt: "int (gcount f) = n"
  shows "nat start + nat n \<le> length (content f0)
         \<and> take (nat n) buffer' = take (nat n) (drop (nat start) (content f0))"
proof -
  define got where "got = take (nat n) (drop (nat start) (content f0))"
  have f: "gcount f = length got" and b: "buffer' = got @ drop (length got) buffer"
    using rd s unfolding stream_read_def seekg_def stream_clear_def got_def
    by (auto simp: Let_def)
  have len: "length got = nat n" using cnt f by simp
  have "length got = min (nat n) (length (content f0) - nat start)"
    unfolding got_def by simp
  with len n have "nat start + nat n \<le> length (content f0)" by simp
  moreover have "take (nat n) buffer' = got" unfolding b using len by simp
  ultimately show ?thesis unfolding got_def by simp
qed

lemma readArray_True:
  assumes op: "fileOpen r" and am: "0 < amount"
    and res: "readArray r tag attribs begin amount buffer = (True, r', buffer')"
  shows "\<exists>node f. xmlReader r tag attribs = Some node
           \<and> declared node ''arraysize'' \<noteq> 0
           \<and> \<not> u64 (begin + amount) > declared node ''arraysize''
           \<and> arraySize (arrayOpen r') = declared node ''arraysize''
           \<and> stream_read
                 (seekg (stream_clear (filein r))
                    (s64 (u64 (u64_of_int (atoi (node_value node))
                      + u64 (begin * declared node ''vectorsize'' * declared node ''datasize'')))))
                 buffer
                 (s64 (u64 (amount * declared node ''vectorsize'' * declared node ''datasize'')))
               = (f, buffer')
           \<and> int (gcount f)
               = s64 (u64 (amount * declared node ''vectorsize'' * declared node ''datasize''))
           \<and> filein r' = f"
proof (cases "xmlReader r tag attribs")
  case None
  then show ?thesis using op am res by (simp add: readArray_def)
next
  case (Some node)
  show ?thesis
    using op am res unfolding readArray_def Some declared_def
    by (auto simp: Let_def split: if_splits prod.splits)
qed

lemma int32_id: "- (2 ^ 31) \<le> v \<Longrightarrow> v < 2 ^ 31 \<Longrightarrow> int32 v = v"
proof -
  assume "- (2 ^ 31) \<le> v" "v < 2 ^ 31"
  then have "0 \<le> v + 2 ^ 31" "v + 2 ^ 31 < 2 ^ 32" by simp_all
  then have "(v + 2 ^ 31) mod 2 ^ 32 = v + 2 ^ 31" by (rule mod_pos_pos_trivial)
  then show ?thesis unfolding int32_def by simp
qed

lemma atoi_small:
  assumes "0 \<le> decimal_text s" "decimal_text s < 2 ^ 31"
  shows "atoi s = decimal_text s"
proof -
  have "strtol s = decimal_text s" unfolding strtol_def using assms by simp
  moreover have "- (2 ^ 31) \<le> decimal_text s" using assms(1) by simp
  ultimately show ?thesis unfolding atoi_def using int32_id assms(2) by simp
qed

lemma decimal_examples:
  "decimal_text ''10'' = 10" "decimal_text ''2'' = 2" "decimal_text ''1'' = 1"
  "decimal_text ''4'' = 4"
  by (simp_all add: decimal_text_def isspace_def isdigit_def)

lemma atoi_examples: "atoi ''10'' = 10" "atoi ''2'' = 2" "atoi ''1'' = 1" "atoi ''4'' = 4"
  by (simp_all add: atoi_small decimal_examples)

text \<open>
  Texts that do not fit an \<open>int\<close>: an offset of \<open>4294967300\<close> is read as
  \<open>4\<close>, an array size of \<open>2147483648\<close> as \<open>- 2147483648\<close>, which is
  stored as \<open>2^64 - 2^31\<close>.
\<close>

lemma atoi_truncates:
  "atoi ''4294967300'' = 4" "atoi ''2147483648'' = - 2147483648"
  "u64_of_int (atoi ''2147483648'') = 2 ^ 64 - 2 ^ 31"
  by (simp_all add: atoi_def strtol_def int32_def decimal_text_def isspace_def isdigit_def
      u64_of_int_def)

lemma node0_declared:
  "declared node0 ''arraysize'' = 10" "declared node0 ''vectorsize'' = 2"
  "declared node0 ''datasize'' = 1" "attribute node0 ''datatype'' = ''uint''"
  "atoi (node_value node0) = 4"
  by (simp_all add: declared_def node0_def attribute_def atoi_examples u64_of_int_def)

lemma node0_attrs:
  "attribute node0 ''arraysize'' = ''10''" "attribute node0 ''vectorsize'' = ''2''"
  "attribute node0 ''datasize'' = ''1''" "attribute node0 ''datatype'' = ''uint''"
  "node_value node0 = ''4''"
  by (simp_all add: node0_def attribute_def)

lemma reader0_fields:
  "fileOpen reader0" "xmlReader reader0 = footer0" "filein reader0 = file0"
  by (simp_all add: reader0_def)

lemma worker0_fields:
  "fileOpen worker0" "xmlReader worker0 tag attribs = None"
  by (simp_all add: worker0_def)

lemma reader0_read:
  "readArray reader0 ''VAR'' [] 2 3 [0, 0, 0, 0, 0, 0, 0, 0]
   = (True,
      reader0\<lparr>arrayOpen := \<lparr>offset = 4, tagName = ''VAR'', arraySize = 10, vectorSize = 2,
                             dataType = VLSV_UINT, dataSize = 1\<rparr>,
               filein := file0\<lparr>gpos := 14, gcount := 6\<rparr>\<rparr>,
      [14, 15, 16, 17, 18, 19, 0, 0])"
  apply (simp add: readArray_def reader0_fields footer0_def node0_attrs atoi_examples
      u64_of_int_def u64_def s64_def Let_def cong: let_weak_cong)
  apply (simp add: reader0_def file0_def stream_clear_def seekg_def stream_read_def Let_def)
  done


text \<open>
  C9. On an open reader, \<open>readArray\<close> with \<open>amount = 0\<close> returns true and
  leaves the reader (its cached array metadata, its stream and its footer) and the
  caller's buffer as they were, whatever the tag, its attributes and \<open>begin\<close>
  are; the footer is not consulted, so the call succeeds for a tag that does not
  exist.
\<close>

theorem C9_readArray_zero_amount:
  "fileOpen r \<Longrightarrow> readArray r tag attribs begin 0 buffer = (True, r, buffer)"
  by (simp add: readArray_def)

theorem C9_readArray_zero_amount_witness:
  "fileOpen worker0 \<and> xmlReader worker0 ''VAR'' [] = None
   \<and> readArray worker0 ''VAR'' [] 5 0 [1, 2, 3] = (True, worker0, [1, 2, 3])"
  using C9_readArray_zero_amount[of worker0 "''VAR''" "[]" 5 "[1, 2, 3]"]
  by (simp add: worker0_fields)

text \<open>
  C7 (amended). The claim says that \<open>readArray\<close> returns false whenever
  \<open>begin + amount\<close> exceeds the declared array size. A zero-length request
  returns true before the tag is looked up, also for a \<open>begin\<close> beyond the
  array: with ten declared elements, \<open>begin = 11\<close> and \<open>amount = 0\<close> the
  call returns true.
\<close>

theorem C7_zero_amount_counterexample:
  "fileOpen reader0 \<and> xmlReader reader0 ''VAR'' [] = Some node0
   \<and> declared node0 ''arraysize'' = 10 \<and> (11::nat) + 0 > 10
   \<and> fst (readArray reader0 ''VAR'' [] 11 0 []) = True"
  by (simp add: readArray_def reader0_fields footer0_def node0_declared)

text \<open>
  C7 as amended: for a request of at least one element whose end
  \<open>begin + amount\<close> does not wrap around 64 bits, \<open>readArray\<close> on an open
  file returns true only if the tag exists and \<open>begin + amount\<close> is at most
  the array size the reader took from the tag (\<open>atoi\<close> of the attribute, stored
  in 64 bits; when the written number is non-negative and below \<open>2^31\<close> this
  is the written number). When moreover the offset the reader took from the tag
  is non-negative and the byte range of the request ends below \<open>2^63\<close> (no
  wrap-around in the stream positions), it returns true only if the read
  delivered all \<open>amount * vectorsize * datasize\<close> bytes, the file holds the
  whole range, and the caller's buffer starts with exactly these bytes of the
  file. Hence it returns false when the range exceeds the array, and, under the
  same condition on the byte range, when the read is short.
\<close>

theorem C7_readArray_true_only_if:
  assumes op: "fileOpen r" and am: "0 < amount" and nw: "begin + amount < 2 ^ 64"
    and res: "readArray r tag attribs begin amount buffer = (True, r', buffer')"
  shows "\<exists>node. xmlReader r tag attribs = Some node
           \<and> begin + amount \<le> declared node ''arraysize''
           \<and> (0 \<le> decimal_text (attribute node ''arraysize'')
                \<and> decimal_text (attribute node ''arraysize'') < 2 ^ 31
               \<longrightarrow> int (begin + amount) \<le> decimal_text (attribute node ''arraysize''))
           \<and> (0 \<le> atoi (node_value node)
                \<and> atoi (node_value node)
                    + int ((begin + amount) * declared node ''vectorsize''
                             * declared node ''datasize'') < 2 ^ 63
               \<longrightarrow> gcount (filein r')
                     = amount * declared node ''vectorsize'' * declared node ''datasize''
                   \<and> nat (atoi (node_value node))
                       + (begin + amount) * declared node ''vectorsize''
                           * declared node ''datasize''
                     \<le> length (content (filein r))
                   \<and> take (amount * declared node ''vectorsize'' * declared node ''datasize'')
                        buffer'
                     = take (amount * declared node ''vectorsize'' * declared node ''datasize'')
                         (drop (nat (atoi (node_value node))
                                + begin * declared node ''vectorsize''
                                    * declared node ''datasize'')
                            (content (filein r))))"
proof -
  from readArray_True[OF op am res] obtain node f where
    find: "xmlReader r tag attribs = Some node"
    and nz: "declared node ''arraysize'' \<noteq> 0"
    and rng: "\<not> u64 (begin + amount) > declared node ''arraysize''"
    and rd: "stream_read
                 (seekg (stream_clear (filein r))
                    (s64 (u64 (u64_of_int (atoi (node_value node))
                      + u64 (begin * declared node ''vectorsize'' * declared node ''datasize'')))))
                 buffer
                 (s64 (u64 (amount * declared node ''vectorsize'' * declared node ''datasize'')))
               = (f, buffer')"
    and cnt: "int (gcount f)
               = s64 (u64 (amount * declared node ''vectorsize'' * declared node ''datasize''))"
    and fr: "filein r' = f"
    by blast
  define vs where "vs = declared node ''vectorsize''"
  define ds where "ds = declared node ''datasize''"
  define off where "off = atoi (node_value node)"
  note rd' = rd[folded vs_def ds_def off_def] and cnt' = cnt[folded vs_def ds_def]
  have range: "begin + amount \<le> declared node ''arraysize''"
    using rng unfolding u64_id[OF nw] by simp
  have bytes: "gcount (filein r') = amount * vs * ds
      \<and> nat off + (begin + amount) * vs * ds \<le> length (content (filein r))
      \<and> take (amount * vs * ds) buffer'
          = take (amount * vs * ds) (drop (nat off + begin * vs * ds) (content (filein r)))"
    if off0: "0 \<le> off" and fit: "off + int ((begin + amount) * vs * ds) < 2 ^ 63"
  proof -
    have split: "(begin + amount) * vs * ds = begin * vs * ds + amount * vs * ds"
      by (simp add: algebra_simps)
    have "int (nat off + (begin * vs * ds + amount * vs * ds)) < int (2 ^ 63)"
      using off0 fit unfolding split by simp
    then have tot: "nat off + (begin * vs * ds + amount * vs * ds) < 2 ^ 63"
      by (simp only: of_nat_less_iff)
    have b63: "begin * vs * ds < 2 ^ 63" and a63: "amount * vs * ds < 2 ^ 63"
      and s63: "nat off + begin * vs * ds < 2 ^ 63"
      using tot by linarith+
    have o63: "off < 2 ^ 63" using fit by linarith
    have lt: "(2::nat) ^ 63 < 2 ^ 64" by simp
    have ub: "u64 (begin * vs * ds) = begin * vs * ds"
      by (rule u64_id[OF less_trans[OF b63 lt]])
    have ua: "u64 (amount * vs * ds) = amount * vs * ds"
      by (rule u64_id[OF less_trans[OF a63 lt]])
    have us: "u64 (nat off + begin * vs * ds) = nat off + begin * vs * ds"
      by (rule u64_id[OF less_trans[OF s63 lt]])
    have start: "s64 (u64 (u64_of_int off + u64 (begin * vs * ds)))
                 = int (nat off + begin * vs * ds)"
      unfolding ub u64_of_int_nat[OF off0 o63] us by (rule s64_id[OF s63])
    have nbytes: "s64 (u64 (amount * vs * ds)) = int (amount * vs * ds)"
      unfolding ua by (rule s64_id[OF a63])
    have vz: "vs \<noteq> 0 \<and> ds \<noteq> 0"
      using op am res find unfolding readArray_def vs_def ds_def declared_def
      by (auto simp: Let_def split: if_splits)
    then have pos: "0 < int (amount * vs * ds)" using am by simp
    have s0: "0 \<le> int (nat off + begin * vs * ds)" by simp
    note sr = stream_read_full[OF s0 pos rd'[unfolded start nbytes] cnt'[unfolded nbytes],
                unfolded nat_int]
    from sr
    have "nat off + begin * vs * ds + amount * vs * ds \<le> length (content (filein r))"
      and "take (amount * vs * ds) buffer'
           = take (amount * vs * ds) (drop (nat off + begin * vs * ds) (content (filein r)))"
      by blast+
    moreover have "gcount (filein r') = amount * vs * ds"
      using cnt'[unfolded nbytes] unfolding fr by (simp only: of_nat_eq_iff)
    ultimately show ?thesis unfolding split by simp
  qed
  have written: "int (begin + amount) \<le> decimal_text (attribute node ''arraysize'')"
    if w0: "0 \<le> decimal_text (attribute node ''arraysize'')"
      and w31: "decimal_text (attribute node ''arraysize'') < 2 ^ 31"
  proof -
    have "decimal_text (attribute node ''arraysize'') < 2 ^ 63" using w31 by simp
    then have "declared node ''arraysize'' = nat (decimal_text (attribute node ''arraysize''))"
      unfolding declared_def atoi_small[OF w0 w31] by (rule u64_of_int_nat[OF w0])
    with range w0 show ?thesis by linarith
  qed
  show ?thesis
    using find range written bytes unfolding vs_def ds_def off_def by blast
qed


theorem C7_readArray_true_only_if_witness:
  "fileOpen reader0 \<and> (0::nat) < 3 \<and> (2::nat) + 3 < 2 ^ 64
   \<and> readArray reader0 ''VAR'' [] 2 3 [0, 0, 0, 0, 0, 0, 0, 0]
       = (True,
          reader0\<lparr>arrayOpen := \<lparr>offset = 4, tagName = ''VAR'', arraySize = 10, vectorSize = 2,
                                 dataType = VLSV_UINT, dataSize = 1\<rparr>,
                   filein := file0\<lparr>gpos := 14, gcount := 6\<rparr>\<rparr>,
          [14, 15, 16, 17, 18, 19, 0, 0])
   \<and> xmlReader reader0 ''VAR'' [] = Some node0
   \<and> (2::nat) + 3 \<le> declared node0 ''arraysize''
   \<and> decimal_text (attribute node0 ''arraysize'') = 10
   \<and> (0::int) \<le> atoi (node_value node0)
   \<and> take 6 [14, 15, 16, 17, 18, 19, 0, 0::nat] = take 6 (drop 8 (content (filein reader0)))"
proof -
  have find: "xmlReader reader0 ''VAR'' [] = Some node0"
    by (simp add: reader0_fields footer0_def)
  have h1: "fileOpen reader0" by (rule reader0_fields)
  have h2: "(0::nat) < 3" by simp
  have h3: "(2::nat) + 3 < 2 ^ 64" by simp
  from C7_readArray_true_only_if[OF h1 h2 h3 reader0_read]
  obtain node where n: "xmlReader reader0 ''VAR'' [] = Some node"
    and r: "(2::nat) + 3 \<le> declared node ''arraysize''"
    and w: "0 \<le> decimal_text (attribute node ''arraysize'')
              \<and> decimal_text (attribute node ''arraysize'') < 2 ^ 31
             \<longrightarrow> int (2 + 3) \<le> decimal_text (attribute node ''arraysize'')"
    and b: "0 \<le> atoi (node_value node)
                \<and> atoi (node_value node)
                    + int ((2 + 3) * declared node ''vectorsize''
                             * declared node ''datasize'') < 2 ^ 63
               \<longrightarrow> take (3 * declared node ''vectorsize'' * declared node ''datasize'')
                        [14, 15, 16, 17, 18, 19, 0, 0::nat]
                     = take (3 * declared node ''vectorsize'' * declared node ''datasize'')
                         (drop (nat (atoi (node_value node))
                                + 2 * declared node ''vectorsize''
                                    * declared node ''datasize'')
                            (content (filein reader0)))"
    by blast
  from n find have node: "node = node0" by simp
  have pre: "0 \<le> atoi (node_value node0)
             \<and> atoi (node_value node0)
                 + int ((2 + 3) * declared node0 ''vectorsize'' * declared node0 ''datasize'')
               < 2 ^ 63"
    by (simp add: node0_declared)
  from b[unfolded node] pre
  have "take 6 [14, 15, 16, 17, 18, 19, 0, 0::nat] = take 6 (drop 8 (content (filein reader0)))"
    by (simp add: node0_declared)
  moreover have "decimal_text (attribute node0 ''arraysize'') = 10"
    by (simp add: node0_attrs decimal_examples)
  ultimately show ?thesis using h1 h2 h3 reader0_read find r[unfolded node] pre by blast
qed

section \<open>Distributing array metadata\<close>

lemma loadArray_not_found:
  "xmlReader r tag attribs = None \<Longrightarrow> fst (loadArray r tag attribs) = False"
  by (simp add: loadArray_def)


text \<open>
  C8. When the master process fails to resolve the tag (its \<open>loadArray\<close>
  returns false, for example because the tag does not exist), the call returns
  false on every process of the group: the master's flag is broadcast and tested
  before any metadata value is broadcast. The reader of every other process is
  unchanged, so none of them holds metadata of the failed lookup.
\<close>

theorem C8_getArrayInfo_failure:
  assumes mr: "masterRank < length procs"
    and fail: "fst (loadArray (procs ! masterRank) tag attribs) = False"
  shows "length (getArrayInfo masterRank procs tag attribs) = length procs
         \<and> (\<forall>rank < length procs.
               fst (getArrayInfo masterRank procs tag attribs ! rank) = False
               \<and> (rank \<noteq> masterRank
                    \<longrightarrow> snd (getArrayInfo masterRank procs tag attribs ! rank) = procs ! rank))"
proof -
  define local where "local = map (\<lambda>(myRank, r).
                    if myRank = masterRank then loadArray r tag attribs else (True, r))
                  (enumerate 0 procs)"
  define flags where
    "flags = MPI_Bcast masterRank (map (\<lambda>(success, r). if success then 1 else (0::int)) local)"
  have len: "length local = length procs" by (simp add: local_def)
  have loc: "local ! rank = (if rank = masterRank then loadArray (procs ! rank) tag attribs
                             else (True, procs ! rank))" if "rank < length procs" for rank
    using that by (simp add: local_def nth_enumerate_eq)
  have "local ! masterRank = loadArray (procs ! masterRank) tag attribs"
    using loc[OF mr] by simp
  then have mflag: "(map (\<lambda>(success, r). if success then 1 else (0::int)) local) ! masterRank = 0"
    using fail mr len by (simp add: split_def)
  have flag0: "flags ! rank = 0" if "rank < length procs" for rank
    using that mflag len by (simp add: flags_def MPI_Bcast_def)
  have flen: "length flags = length procs" by (simp add: flags_def MPI_Bcast_def len)
  have res: "getArrayInfo masterRank procs tag attribs ! rank = (False, snd (local ! rank))"
    if "rank < length procs" for rank
    using that flag0[OF that] len flen
    unfolding getArrayInfo_def local_def[symmetric] Let_def flags_def[symmetric]
    by (simp add: MPI_Bcast_def split_def)
  have "length (getArrayInfo masterRank procs tag attribs) = length procs"
    unfolding getArrayInfo_def local_def[symmetric] Let_def flags_def[symmetric]
    using len flen by (simp add: MPI_Bcast_def)
  moreover have "fst (getArrayInfo masterRank procs tag attribs ! rank) = False
               \<and> (rank \<noteq> masterRank
                    \<longrightarrow> snd (getArrayInfo masterRank procs tag attribs ! rank) = procs ! rank)"
    if "rank < length procs" for rank
    using res[OF that] loc[OF that] by simp
  ultimately show ?thesis by blast
qed


theorem C8_getArrayInfo_failure_witness:
  "(0::nat) < length [reader0, worker0, worker0]
   \<and> fst (loadArray ([reader0, worker0, worker0] ! 0) ''NOPE'' []) = False
   \<and> length (getArrayInfo 0 [reader0, worker0, worker0] ''NOPE'' []) = 3
   \<and> fst (getArrayInfo 0 [reader0, worker0, worker0] ''NOPE'' [] ! 0) = False
   \<and> fst (getArrayInfo 0 [reader0, worker0, worker0] ''NOPE'' [] ! 2) = False
   \<and> snd (getArrayInfo 0 [reader0, worker0, worker0] ''NOPE'' [] ! 2) = worker0"
proof -
  have h1: "(0::nat) < length [reader0, worker0, worker0]" by simp
  have "xmlReader reader0 ''NOPE'' [] = None"
    by (simp add: reader0_fields footer0_def)
  then have h2: "fst (loadArray ([reader0, worker0, worker0] ! 0) ''NOPE'' []) = False"
    by (simp add: loadArray_not_found)
  from C8_getArrayInfo_failure[OF h1 h2] h1 h2 show ?thesis by simp
qed

section \<open>Addresses and indices are inverse inside the grid\<close>

lemma decompose_index:
  fixes i j k Nx Ny :: nat
  assumes "i < Nx" "j < Ny"
  defines "idx \<equiv> (k * Ny + j) * Nx + i"
  shows "idx div (Ny * Nx) = k" "idx mod (Ny * Nx) mod Nx = i" "idx mod (Ny * Nx) div Nx = j"
proof -
  have r: "j * Nx + i < Ny * Nx"
  proof -
    have "j * Nx + i < j * Nx + Nx" using assms(1) by simp
    also have "\<dots> = (j + 1) * Nx" by simp
    also have "\<dots> \<le> Ny * Nx" using assms(2) by (intro mult_le_mono1) simp
    finally show ?thesis .
  qed
  have e: "idx = k * (Ny * Nx) + (j * Nx + i)"
    unfolding idx_def by (simp add: algebra_simps)
  from r have nz: "Ny * Nx \<noteq> 0" by linarith
  from assms(1) have nx: "Nx \<noteq> 0" by linarith
  show "idx div (Ny * Nx) = k"
    unfolding e div_mult_self3[OF nz] div_less[OF r] by simp
  have m: "idx mod (Ny * Nx) = j * Nx + i"
    unfolding e mod_mult_self3 by (rule mod_less[OF r])
  show "idx mod (Ny * Nx) mod Nx = i"
    unfolding m mod_mult_self3 by (rule mod_less[OF assms(1)])
  show "idx mod (Ny * Nx) div Nx = j"
    unfolding m div_mult_self3[OF nx] div_less[OF assms(1)] by simp
qed

lemma in_bounds_index:
  assumes ok: "mesh_ok m" and ib: "in_bounds m l i j k"
  shows "(k * (bbox m ! 1 * 2 ^ l) + j) * (bbox m ! 0 * 2 ^ l) + i < N_blocks0 m * 8 ^ l"
proof -
  have i: "i < bbox m ! 0 * 2 ^ l" and j: "j < bbox m ! 1 * 2 ^ l" and k: "k < bbox m ! 2 * 2 ^ l"
    using ib unfolding in_bounds_def by blast+
  from index_bound[OF i j k] show ?thesis
    unfolding level_cells N_blocks0_ok[OF ok] .
qed

lemma getIndices_getGlobalID:
  assumes ok: "mesh_ok m" and ib: "in_bounds m l i j k"
  shows "getIndices m (getGlobalID m l i j k) = (l, i, j, k)"
proof -
  have l: "l \<le> refLevelMaxAllowed m"
    and i: "i < bbox m ! 0 * 2 ^ l" and j: "j < bbox m ! 1 * 2 ^ l"
    using ib unfolding in_bounds_def by blast+
  show ?thesis
    unfolding getGlobalID_ok[OF ok ib] add.assoc
      getIndices_ok[OF ok l in_bounds_index[OF ok ib], unfolded add.assoc]
      decompose_index[OF i j] ..
qed

lemma valid_idE:
  assumes "valid_id m a"
  obtains l i j k where "getIndices m a = (l, i, j, k)" "in_bounds m l i j k"
    "getGlobalID m l i j k = a"
  using assms unfolding valid_id_def by (cases "getIndices m a") auto

lemma valid_getGlobalID:
  assumes "mesh_ok m" "in_bounds m l i j k"
  shows "valid_id m (getGlobalID m l i j k)"
  unfolding valid_id_def getIndices_getGlobalID[OF assms] using assms(2) by simp

lemma refLevel_getGlobalID:
  assumes "mesh_ok m" "in_bounds m l i j k"
  shows "refLevel_of m (getGlobalID m l i j k) = l"
  unfolding refLevel_of_def getIndices_getGlobalID[OF assms] by simp

lemma in_bounds_32:
  assumes ok: "mesh_ok m" and l: "l \<le> refLevelMaxAllowed m"
  shows "bbox m ! 0 * 2 ^ l < 2 ^ 32" "bbox m ! 1 * 2 ^ l < 2 ^ 32" "bbox m ! 2 * 2 ^ l < 2 ^ 32"
proof -
  define Nx where "Nx = bbox m ! 0 * 2 ^ l"
  define Ny where "Ny = bbox m ! 1 * 2 ^ l"
  define Nz where "Nz = bbox m ! 2 * 2 ^ l"
  have pos: "0 < Nx" "0 < Ny" "0 < Nz"
    using ok by (simp_all add: mesh_ok_def Nx_def Ny_def Nz_def)
  have "Nx * Ny * Nz = bbox m ! 0 * bbox m ! 1 * bbox m ! 2 * 8 ^ l"
    unfolding Nx_def Ny_def Nz_def by (rule level_cells)
  then have all: "Nx * Ny * Nz < 2 ^ 32" using mesh_ok_level[OF ok l] by simp
  then have xy: "Nx * Ny < 2 ^ 32" using pos(3) by (rule less_of_mult_less)
  then show "bbox m ! 0 * 2 ^ l < 2 ^ 32"
    unfolding Nx_def[symmetric] using pos(2) by (rule less_of_mult_less)
  from xy have "Ny * Nx < 2 ^ 32" by (simp only: mult.commute)
  then show "bbox m ! 1 * 2 ^ l < 2 ^ 32"
    unfolding Ny_def[symmetric] using pos(1) by (rule less_of_mult_less)
  from all have "Nz * (Nx * Ny) < 2 ^ 32" by (simp only: mult.commute)
  then show "bbox m ! 2 * 2 ^ l < 2 ^ 32"
    unfolding Nz_def[symmetric] using pos(1) pos(2) by (intro less_of_mult_less[of Nz "Nx * Ny"]) simp_all
qed

lemma max_level_32:
  assumes "mesh_ok m"
  shows "refLevelMaxAllowed m < 32"
proof -
  have "(2::nat) ^ refLevelMaxAllowed m < 2 ^ 32"
    by (rule mesh_ok_pow2[OF assms order_refl])
  then show ?thesis by (simp only: power_strict_increasing_iff[of 2] one_less_numeral_iff semiring_norm)
qed

section \<open>Parents, children and neighbours by index\<close>

lemma getParent_tuple:
  assumes ok: "mesh_ok m" and ib: "in_bounds m l i j k"
  shows "getParent m (getGlobalID m l i j k) =
           (if l = 0 then getGlobalID m l i j k
            else getGlobalID m (l - 1) (i div 2) (j div 2) (k div 2))"
  unfolding getParent_def getIndices_getGlobalID[OF ok ib] by simp

lemma in_bounds_parent:
  assumes ib: "in_bounds m l i j k" and l: "0 < l"
  shows "in_bounds m (l - 1) (i div 2) (j div 2) (k div 2)"
proof -
  obtain l' where l': "l = Suc l'" using l by (cases l) auto
  have half: "a div 2 < b * 2 ^ l'" if "a < b * 2 ^ Suc l'" for a b :: nat
    using that by (simp add: less_mult_imp_div_less mult.commute mult.left_commute)
  show ?thesis
    using ib unfolding in_bounds_def l' by (auto intro: half)
qed

lemma in_bounds_child:
  assumes ib: "in_bounds m l i j k" and l: "l < refLevelMaxAllowed m"
    and a: "a < 2" and b: "b < 2" and c: "c < 2"
  shows "in_bounds m (Suc l) (2 * i + a) (2 * j + b) (2 * k + c)"
proof -
  have dbl: "2 * x + y < n * 2 ^ Suc l" if "x < n * 2 ^ l" "y < 2" for x y n :: nat
  proof -
    have "2 * x + y < 2 * (x + 1)" using that(2) by simp
    also have "\<dots> \<le> 2 * (n * 2 ^ l)" using that(1) by (intro mult_le_mono2) simp
    finally show ?thesis by (simp add: mult.commute mult.left_commute)
  qed
  show ?thesis
    using ib l a b c unfolding in_bounds_def by (auto intro: dbl)
qed

lemma getChildren_tuple:
  assumes ok: "mesh_ok m" and ib: "in_bounds m l i j k" and l: "l < refLevelMaxAllowed m"
  shows "getChildren m (getGlobalID m l i j k) =
           [getGlobalID m (Suc l) (2 * i) (2 * j) (2 * k),
            getGlobalID m (Suc l) (2 * i + 1) (2 * j) (2 * k),
            getGlobalID m (Suc l) (2 * i) (2 * j + 1) (2 * k),
            getGlobalID m (Suc l) (2 * i + 1) (2 * j + 1) (2 * k),
            getGlobalID m (Suc l) (2 * i) (2 * j) (2 * k + 1),
            getGlobalID m (Suc l) (2 * i + 1) (2 * j) (2 * k + 1),
            getGlobalID m (Suc l) (2 * i) (2 * j + 1) (2 * k + 1),
            getGlobalID m (Suc l) (2 * i + 1) (2 * j + 1) (2 * k + 1)]"
proof -
  have sl: "Suc l \<le> refLevelMaxAllowed m" using l by simp
  have l32: "Suc l < 2 ^ 32"
    using max_level_32[OF ok] sl by (meson le_less_trans less_trans numeral_less_iff
        semiring_norm(76) less_exp)
  note cb = in_bounds_child[OF ib l]
  have c1: "in_bounds m (Suc l) (2 * i + 1) (2 * j + 1) (2 * k + 1)"
    by (rule cb) simp_all
  have i1: "2 * i + 1 < 2 ^ 32"
    using c1 in_bounds_32(1)[OF ok sl] unfolding in_bounds_def by (meson less_trans)
  have j1: "2 * j + 1 < 2 ^ 32"
    using c1 in_bounds_32(2)[OF ok sl] unfolding in_bounds_def by (meson less_trans)
  have k1: "2 * k + 1 < 2 ^ 32"
    using c1 in_bounds_32(3)[OF ok sl] unfolding in_bounds_def by (meson less_trans)
  have i0: "2 * i < 2 ^ 32" "2 * i + 1 < 2 ^ 32" using i1 by linarith+
  have j0: "2 * j < 2 ^ 32" "2 * j + 1 < 2 ^ 32" using j1 by linarith+
  have k0: "2 * k < 2 ^ 32" "2 * k + 1 < 2 ^ 32" using k1 by linarith+
  have u: "u32 (i * 2) = 2 * i" "u32 (j * 2) = 2 * j" "u32 (k * 2) = 2 * k"
    "u32 (2 * i + 1) = 2 * i + 1" "u32 (2 * j + 1) = 2 * j + 1" "u32 (2 * k + 1) = 2 * k + 1"
    "u32 (l + 1) = Suc l"
    using u32_id[OF i0(1)] u32_id[OF j0(1)] u32_id[OF k0(1)] u32_id[OF i0(2)] u32_id[OF j0(2)]
      u32_id[OF k0(2)] u32_id[OF l32] by (simp_all add: mult.commute)
  have gt: "\<not> u32 (l + 1) > refLevelMaxAllowed m" unfolding u(7) using l by simp
  show ?thesis
    unfolding getChildren_def getIndices_getGlobalID[OF ok ib] prod.case Let_def u
    using l by simp
qed

lemma add_off_range:
  assumes i: "i < N" and N: "N < 2 ^ 32" and off: "off = - 1 \<or> off = 0 \<or> off = 1"
  shows "add_off i off < N \<longleftrightarrow> 0 \<le> int i + off \<and> int i + off < int N"
    and "0 \<le> int i + off \<Longrightarrow> int i + off < int N \<Longrightarrow> add_off i off = nat (int i + off)"
proof -
  have N': "int N < 2 ^ 32" using N by (metis of_nat_less_iff of_nat_numeral of_nat_power)
  have small: "int i + off < 2 ^ 32" using i N' off by linarith
  show r2: "add_off i off = nat (int i + off)" if "0 \<le> int i + off" "int i + off < int N"
    unfolding add_off_def using mod_pos_pos_trivial[OF that(1) small] by simp
  show "add_off i off < N \<longleftrightarrow> 0 \<le> int i + off \<and> int i + off < int N"
  proof (cases "0 \<le> int i + off")
    case True
    have "add_off i off = nat (int i + off)"
      unfolding add_off_def using mod_pos_pos_trivial[OF True small] by simp
    then show ?thesis using True by auto
  next
    case False
    then have io: "i = 0" "off = - 1" using off by linarith+
    have "add_off i off = 2 ^ 32 - 1" unfolding add_off_def io by simp
    then have "\<not> add_off i off < N" using N by simp
    then show ?thesis using False by simp
  qed
qed

lemma set_concat3:
  "x \<in> set (concat (map (\<lambda>a. if P a then []
       else concat (map (\<lambda>b. if Q a b then []
         else concat (map (\<lambda>c. if R a b c then [] else if S a b c then [] else [f a b c])
                cs)) bs)) as))
   \<longleftrightarrow> (\<exists>a\<in>set as. \<exists>b\<in>set bs. \<exists>c\<in>set cs.
          \<not> P a \<and> \<not> Q a b \<and> \<not> R a b c \<and> \<not> S a b c \<and> x = f a b c)"
  by auto

lemma getNeighbors_iff:
  assumes ok: "mesh_ok m" and ib: "in_bounds m l i j k"
  shows "x \<in> set (getNeighbors m (getGlobalID m l i j k)) \<longleftrightarrow>
           (\<exists>i' j' k'. in_bounds m l i' j' k' \<and> near i i' \<and> near j j' \<and> near k k'
              \<and> \<not> (i' = i \<and> j' = j \<and> k' = k) \<and> x = getGlobalID m l i' j' k')"
    (is "?L \<longleftrightarrow> ?R")
proof -
  define Nx where "Nx = bbox m ! 0 * 2 ^ l"
  define Ny where "Ny = bbox m ! 1 * 2 ^ l"
  define Nz where "Nz = bbox m ! 2 * 2 ^ l"
  have l: "l \<le> refLevelMaxAllowed m" and i: "i < Nx" and j: "j < Ny" and k: "k < Nz"
    using ib unfolding in_bounds_def Nx_def Ny_def Nz_def by blast+
  have N32: "Nx < 2 ^ 32" "Ny < 2 ^ 32" "Nz < 2 ^ 32"
    unfolding Nx_def Ny_def Nz_def by (rule in_bounds_32[OF ok l])+
  have u: "u32 (bbox m ! 0 * 2 ^ l) = Nx" "u32 (bbox m ! 1 * 2 ^ l) = Ny"
    "u32 (bbox m ! 2 * 2 ^ l) = Nz"
    unfolding Nx_def[symmetric] Ny_def[symmetric] Nz_def[symmetric]
    by (rule u32_id[OF N32(1)], rule u32_id[OF N32(2)], rule u32_id[OF N32(3)])
  have L: "?L \<longleftrightarrow> (\<exists>ko\<in>{- 1, 0, 1}. \<exists>jo\<in>{- 1, 0, 1}. \<exists>io\<in>{- 1, 0, 1}.
             add_off k ko < Nz \<and> add_off j jo < Ny \<and> add_off i io < Nx
             \<and> \<not> (io = 0 \<and> jo = 0 \<and> ko = 0)
             \<and> x = getGlobalID m l (add_off i io) (add_off j jo) (add_off k ko))"
    unfolding getNeighbors_def getIndices_getGlobalID[OF ok ib] prod.case Let_def u
      set_concat3 by (simp add: not_le)
  show ?thesis
  proof
    assume ?L
    then obtain ko jo io :: int where os: "ko \<in> {- 1, 0, 1}" "jo \<in> {- 1, 0, 1}"
      "io \<in> {- 1, 0, 1}"
      and r: "add_off k ko < Nz" "add_off j jo < Ny" "add_off i io < Nx"
      and nz: "\<not> (io = 0 \<and> jo = 0 \<and> ko = 0)"
      and x: "x = getGlobalID m l (add_off i io) (add_off j jo) (add_off k ko)"
      unfolding L by blast
    have o: "ko = - 1 \<or> ko = 0 \<or> ko = 1" "jo = - 1 \<or> jo = 0 \<or> jo = 1"
      "io = - 1 \<or> io = 0 \<or> io = 1"
      using os by blast+
    note ki = add_off_range[OF k N32(3) o(1)] and ji = add_off_range[OF j N32(2) o(2)]
      and ii = add_off_range[OF i N32(1) o(3)]
    have kk: "int (add_off k ko) = int k + ko" using ki r(1) by simp
    have jj: "int (add_off j jo) = int j + jo" using ji r(2) by simp
    have iii: "int (add_off i io) = int i + io" using ii r(3) by simp
    have "in_bounds m l (add_off i io) (add_off j jo) (add_off k ko)"
      using r l unfolding in_bounds_def Nx_def Ny_def Nz_def by simp
    moreover have "near i (add_off i io)" "near j (add_off j jo)" "near k (add_off k ko)"
      unfolding near_def using kk jj iii o by linarith+
    moreover have "\<not> (add_off i io = i \<and> add_off j jo = j \<and> add_off k ko = k)"
      using kk jj iii nz by linarith
    ultimately show ?R using x by blast
  next
    assume ?R
    then obtain i' j' k' where ib': "in_bounds m l i' j' k'"
      and n: "near i i'" "near j j'" "near k k'"
      and ne: "\<not> (i' = i \<and> j' = j \<and> k' = k)" and x: "x = getGlobalID m l i' j' k'"
      by blast
    have r': "i' < Nx" "j' < Ny" "k' < Nz"
      using ib' unfolding in_bounds_def Nx_def Ny_def Nz_def by blast+
    define io jo ko where "io = int i' - int i" and "jo = int j' - int j" and "ko = int k' - int k"
    have o: "ko = - 1 \<or> ko = 0 \<or> ko = 1" "jo = - 1 \<or> jo = 0 \<or> jo = 1"
      "io = - 1 \<or> io = 0 \<or> io = 1"
      using n unfolding near_def io_def jo_def ko_def by linarith+
    note ki = add_off_range[OF k N32(3) o(1)] and ji = add_off_range[OF j N32(2) o(2)]
      and ii = add_off_range[OF i N32(1) o(3)]
    have e: "add_off i io = i'" "add_off j jo = j'" "add_off k ko = k'"
      using ii(2) ji(2) ki(2) r' unfolding io_def jo_def ko_def by simp_all
    have "\<not> (io = 0 \<and> jo = 0 \<and> ko = 0)" using ne unfolding io_def jo_def ko_def by simp
    moreover have "ko \<in> {- 1, 0, 1}" "jo \<in> {- 1, 0, 1}" "io \<in> {- 1, 0, 1}"
      using o by blast+
    ultimately show ?L unfolding L using e r' x by blast
  qed
qed

section \<open>The containment order of blocks\<close>

lemma ancestor_refl: "ancestor m a a"
  unfolding ancestor_def by (cases "getIndices m a") simp

lemma ancestor_level: "ancestor m a b \<Longrightarrow> refLevel_of m a \<le> refLevel_of m b"
  unfolding ancestor_def refLevel_of_def
  by (cases "getIndices m a"; cases "getIndices m b") simp

lemma div_pow2_trans:
  fixes x :: nat
  assumes "la \<le> lb" "lb \<le> lc"
  shows "x div 2 ^ (lc - lb) div 2 ^ (lb - la) = x div 2 ^ (lc - la)"
proof -
  have "lc - la = (lc - lb) + (lb - la)" using assms by simp
  then have "(2::nat) ^ (lc - la) = 2 ^ (lc - lb) * 2 ^ (lb - la)"
    by (simp only: power_add)
  then show ?thesis by (simp only: div_mult2_eq)
qed

lemma ancestor_trans:
  assumes "ancestor m a b" "ancestor m b c"
  shows "ancestor m a c"
proof -
  obtain la ia ja ka where a: "getIndices m a = (la, ia, ja, ka)"
    by (cases "getIndices m a") auto
  obtain lb ib jb kb where b: "getIndices m b = (lb, ib, jb, kb)"
    by (cases "getIndices m b") auto
  obtain lc ic jc kc where c: "getIndices m c = (lc, ic, jc, kc)"
    by (cases "getIndices m c") auto
  from assms(1) have ab: "la \<le> lb" "ia = ib div 2 ^ (lb - la)" "ja = jb div 2 ^ (lb - la)"
    "ka = kb div 2 ^ (lb - la)"
    unfolding ancestor_def a b by simp_all
  from assms(2) have bc: "lb \<le> lc" "ib = ic div 2 ^ (lc - lb)" "jb = jc div 2 ^ (lc - lb)"
    "kb = kc div 2 ^ (lc - lb)"
    unfolding ancestor_def b c by simp_all
  show ?thesis
    unfolding ancestor_def a c prod.case ab(2-4) bc(2-4) div_pow2_trans[OF ab(1) bc(1)]
    using ab(1) bc(1) by simp
qed

lemma ancestor_same_level:
  assumes va: "valid_id m a" and vb: "valid_id m b"
    and anc: "ancestor m a b" and lev: "refLevel_of m a = refLevel_of m b"
  shows "a = b"
proof -
  from va obtain la ia ja ka where a: "getIndices m a = (la, ia, ja, ka)"
    and ga: "getGlobalID m la ia ja ka = a" by (rule valid_idE)
  from vb obtain lb ib jb kb where b: "getIndices m b = (lb, ib, jb, kb)"
    and gb: "getGlobalID m lb ib jb kb = b" by (rule valid_idE)
  have "la = lb" using lev unfolding refLevel_of_def a b by simp
  moreover from anc have "ia = ib div 2 ^ (lb - la)" "ja = jb div 2 ^ (lb - la)"
    "ka = kb div 2 ^ (lb - la)"
    unfolding ancestor_def a b by simp_all
  ultimately have "la = lb" "ia = ib" "ja = jb" "ka = kb" by simp_all
  then show ?thesis using ga gb by simp
qed

lemma ancestor_antisym:
  assumes "valid_id m a" "valid_id m b" "ancestor m a b" "ancestor m b a"
  shows "a = b"
proof (rule ancestor_same_level[OF assms(1,2,3)])
  show "refLevel_of m a = refLevel_of m b"
    using ancestor_level[OF assms(3)] ancestor_level[OF assms(4)] by simp
qed

lemma ancestor_tuple:
  assumes ok: "mesh_ok m" and a: "in_bounds m la ia ja ka" and b: "in_bounds m lb ib jb kb"
  shows "ancestor m (getGlobalID m la ia ja ka) (getGlobalID m lb ib jb kb) \<longleftrightarrow>
           la \<le> lb \<and> ia = ib div 2 ^ (lb - la) \<and> ja = jb div 2 ^ (lb - la)
           \<and> ka = kb div 2 ^ (lb - la)"
  unfolding ancestor_def getIndices_getGlobalID[OF ok a] getIndices_getGlobalID[OF ok b] by simp

lemma children_facts:
  assumes ok: "mesh_ok m" and ib: "in_bounds m l i j k" and l: "l < refLevelMaxAllowed m"
    and c: "c \<in> set (getChildren m (getGlobalID m l i j k))"
  shows "valid_id m c" "refLevel_of m c = Suc l" "ancestor m (getGlobalID m l i j k) c"
proof -
  from c obtain x y z where xyz: "x < 2" "y < 2" "z < 2"
    and ce: "c = getGlobalID m (Suc l) (2 * i + x) (2 * j + y) (2 * k + z)"
    unfolding getChildren_tuple[OF ok ib l]
    by (auto intro: that[of 0 0 0] that[of 1 0 0] that[of 0 1 0] that[of 1 1 0]
        that[of 0 0 1] that[of 1 0 1] that[of 0 1 1] that[of 1 1 1])
  note cb = in_bounds_child[OF ib l xyz]
  show "valid_id m c" unfolding ce by (rule valid_getGlobalID[OF ok cb])
  show "refLevel_of m c = Suc l" unfolding ce by (rule refLevel_getGlobalID[OF ok cb])
  show "ancestor m (getGlobalID m l i j k) c"
    unfolding ce ancestor_tuple[OF ok ib cb] using xyz by simp
qed

section \<open>What a call of refine changes\<close>

lemma refines_to_refl: "refines_to m L g g"
  unfolding refines_to_def by simp

lemma refines_to_trans:
  assumes 1: "refines_to m L g g1" and 2: "refines_to m L' g1 g2" and le: "L' \<le> L"
  shows "refines_to m L g g2"
  unfolding refines_to_def
proof (intro conjI allI impI)
  fix b assume b: "g2 b \<noteq> None"
  show "g b \<noteq> None \<or>
        (valid_id m b \<and> refLevel_of m b \<le> L + 1 \<and>
         (\<exists>p. g p \<noteq> None \<and> ancestor m p b \<and> refLevel_of m p < refLevel_of m b))"
  proof (cases "g1 b \<noteq> None")
    case True
    then show ?thesis using 1 unfolding refines_to_def by blast
  next
    case False
    with b 2 obtain p where vb: "valid_id m b" and lb: "refLevel_of m b \<le> L' + 1"
      and p: "g1 p \<noteq> None" "ancestor m p b" "refLevel_of m p < refLevel_of m b"
      unfolding refines_to_def by blast
    have lb': "refLevel_of m b \<le> L + 1" using lb le by simp
    show ?thesis
    proof (cases "g p \<noteq> None")
      case True
      then show ?thesis using vb lb' p by blast
    next
      case False
      with p(1) 1 obtain q where q: "g q \<noteq> None" "ancestor m q p"
        "refLevel_of m q < refLevel_of m p"
        unfolding refines_to_def by blast
      have "ancestor m q b" by (rule ancestor_trans[OF q(2) p(2)])
      moreover have "refLevel_of m q < refLevel_of m b" using q(3) p(3) by simp
      ultimately show ?thesis using vb lb' q(1) by blast
    qed
  qed
next
  fix b assume b: "g b \<noteq> None"
  show "g2 b \<noteq> None \<or> refLevel_of m b \<le> L"
  proof (cases "g1 b \<noteq> None")
    case True
    with 2 have "g2 b \<noteq> None \<or> refLevel_of m b \<le> L'" unfolding refines_to_def by blast
    then show ?thesis using le by auto
  next
    case False
    with b 1 show ?thesis unfolding refines_to_def by blast
  qed
qed

lemma insert_children_keys:
  "insert_children g cs ls n b \<noteq> None \<longleftrightarrow> g b \<noteq> None \<or> b \<in> set cs"
  by (induction cs arbitrary: g n) (auto simp: map_insert_def)

lemma getChildren_refine_children:
  assumes "getIndices m a = (l, i, j, k)" "\<not> u32 (l + 1) > refLevelMaxAllowed m"
  shows "refine_children m (u32 (l + 1)) (u32 (i * 2)) (u32 (j * 2)) (u32 (k * 2))
         = getChildren m a"
  unfolding getChildren_def refine_children_def assms(1) prod.case Let_def
  using assms(2) by simp

lemma refine_nbrs_rule:
  assumes init: "I [] g0"
    and skip: "\<And>pre g nbr. I pre g \<Longrightarrow> nbr \<in> set nbrs \<Longrightarrow>
                 getParent m nbr = nbr \<or> g (getParent m nbr) = None \<Longrightarrow> I (pre @ [nbr]) g"
    and call: "\<And>pre g nbr. I pre g \<Longrightarrow> nbr \<in> set nbrs \<Longrightarrow> getParent m nbr \<noteq> nbr \<Longrightarrow>
                 g (getParent m nbr) \<noteq> None \<Longrightarrow>
                 \<exists>r g'. rec g (getParent m nbr) = Some (r, g') \<and> I (pre @ [nbr]) g'"
  shows "\<exists>g'. refine_nbrs rec m g0 nbrs = Some g' \<and> I nbrs g'"
proof -
  have gen: "set rest \<subseteq> set nbrs \<Longrightarrow> I pre g \<Longrightarrow>
             \<exists>g'. refine_nbrs rec m g rest = Some g' \<and> I (pre @ rest) g'" for rest pre g
  proof (induction rest arbitrary: pre g)
    case Nil
    then show ?case by simp
  next
    case (Cons nbr rest)
    have nbr: "nbr \<in> set nbrs" and rest: "set rest \<subseteq> set nbrs" using Cons.prems(1) by auto
    show ?case
    proof (cases "getParent m nbr = nbr \<or> g (getParent m nbr) = None")
      case True
      from skip[OF Cons.prems(2) nbr True] have "I (pre @ [nbr]) g" .
      from Cons.IH[OF rest this] obtain g' where
        "refine_nbrs rec m g rest = Some g'" "I ((pre @ [nbr]) @ rest) g'" by blast
      then show ?thesis using True by (auto simp: Let_def)
    next
      case False
      then have f: "getParent m nbr \<noteq> nbr" "g (getParent m nbr) \<noteq> None" by blast+
      from call[OF Cons.prems(2) nbr f] obtain r g1 where
        r: "rec g (getParent m nbr) = Some (r, g1)" and i1: "I (pre @ [nbr]) g1" by blast
      from Cons.IH[OF rest i1] obtain g' where
        "refine_nbrs rec m g1 rest = Some g'" "I ((pre @ [nbr]) @ rest) g'" by blast
      then show ?thesis using f r by (auto simp: Let_def)
    qed
  qed
  from gen[of nbrs "[]" g0] init show ?thesis by simp
qed

lemma refLevel_le_max:
  assumes "valid_id m a"
  shows "refLevel_of m a \<le> refLevelMaxAllowed m"
proof -
  from assms obtain l i j k where "getIndices m a = (l, i, j, k)" "in_bounds m l i j k"
    by (rule valid_idE)
  then show ?thesis unfolding refLevel_of_def in_bounds_def by simp
qed

lemma refine_step:
  assumes ok: "mesh_ok m" and va: "valid_id m a" and pres: "g a \<noteq> None"
    and lv: "refLevel_of m a \<noteq> refLevelMaxAllowed m"
  shows "\<exists>ls. refine (Suc n) m g a =
           (case refine_nbrs (refine n m) m
                   (insert_children (g(a := None)) (getChildren m a) ls 0) (getNeighbors m a) of
              None \<Rightarrow> None
            | Some g' \<Rightarrow> Some (True, g'))"
proof -
  from va obtain l i j k where t: "getIndices m a = (l, i, j, k)"
    and ib: "in_bounds m l i j k" by (rule valid_idE)
  have l: "l < refLevelMaxAllowed m"
    using lv refLevel_le_max[OF va] unfolding refLevel_of_def t by simp
  have "Suc l < 2 ^ 32"
    using max_level_32[OF ok] l by (meson Suc_leI le_less_trans less_trans numeral_less_iff
        semiring_norm(76) less_exp)
  then have u: "u32 (l + 1) = Suc l" using u32_id[of "Suc l"] by simp
  have ngt: "\<not> u32 (l + 1) > refLevelMaxAllowed m" unfolding u using l by simp
  have ne: "l \<noteq> refLevelMaxAllowed m" using l by simp
  show ?thesis
    unfolding refine.simps Let_def t prod.case getChildren_refine_children[OF t ngt]
    using pres ne by auto
qed

lemma neighbor_parent:
  assumes ok: "mesh_ok m" and va: "valid_id m a"
    and nbr: "nbr \<in> set (getNeighbors m a)" and ne: "getParent m nbr \<noteq> nbr"
  shows "valid_id m (getParent m nbr)"
    and "Suc (refLevel_of m (getParent m nbr)) = refLevel_of m a"
proof -
  from va obtain l i j k where t: "getIndices m a = (l, i, j, k)"
    and ib: "in_bounds m l i j k" and ga: "getGlobalID m l i j k = a" by (rule valid_idE)
  from nbr obtain i' j' k' where ib': "in_bounds m l i' j' k'"
    and ne': "nbr = getGlobalID m l i' j' k'"
    unfolding ga[symmetric] getNeighbors_iff[OF ok ib] by blast
  have l0: "0 < l" using ne unfolding ne' getParent_tuple[OF ok ib'] by (cases "l = 0") auto
  then have pe: "getParent m nbr = getGlobalID m (l - 1) (i' div 2) (j' div 2) (k' div 2)"
    unfolding ne' getParent_tuple[OF ok ib'] by simp
  note pb = in_bounds_parent[OF ib' l0]
  show "valid_id m (getParent m nbr)" unfolding pe by (rule valid_getGlobalID[OF ok pb])
  show "Suc (refLevel_of m (getParent m nbr)) = refLevel_of m a"
    unfolding pe refLevel_getGlobalID[OF ok pb] using l0 unfolding refLevel_of_def t by simp
qed

lemma refine_frame:
  assumes ok: "mesh_ok m" and va: "valid_id m a" and pres: "g a \<noteq> None"
    and lv: "refLevel_of m a \<noteq> refLevelMaxAllowed m"
  shows "refines_to m (refLevel_of m a) g
           (insert_children (g(a := None)) (getChildren m a) ls 0)"
proof -
  from va obtain l i j k where t: "getIndices m a = (l, i, j, k)"
    and ib: "in_bounds m l i j k" and ga: "getGlobalID m l i j k = a" by (rule valid_idE)
  have la: "refLevel_of m a = l" unfolding refLevel_of_def t by simp
  have l: "l < refLevelMaxAllowed m" using lv refLevel_le_max[OF va] unfolding la by simp
  note cf = children_facts[OF ok ib l, unfolded ga]
  show ?thesis
    unfolding refines_to_def insert_children_keys la
  proof (intro conjI allI impI)
    fix b assume "(g(a := None)) b \<noteq> None \<or> b \<in> set (getChildren m a)"
    then show "g b \<noteq> None \<or>
        (valid_id m b \<and> refLevel_of m b \<le> l + 1 \<and>
         (\<exists>p. g p \<noteq> None \<and> ancestor m p b \<and> refLevel_of m p < refLevel_of m b))"
    proof
      assume "(g(a := None)) b \<noteq> None"
      then show ?thesis by (cases "b = a") auto
    next
      assume c: "b \<in> set (getChildren m a)"
      have "valid_id m b" "refLevel_of m b \<le> l + 1" using cf(1,2)[OF c] by simp_all
      moreover have "g a \<noteq> None \<and> ancestor m a b \<and> refLevel_of m a < refLevel_of m b"
        using pres cf(3)[OF c] cf(2)[OF c] la by simp
      ultimately show ?thesis by blast
    qed
  next
    fix b assume b: "g b \<noteq> None"
    show "((g(a := None)) b \<noteq> None \<or> b \<in> set (getChildren m a)) \<or> refLevel_of m b \<le> l"
      using b la by (cases "b = a") auto
  qed
qed

lemma refine_post:
  assumes ok: "mesh_ok m"
  shows "valid_id m a \<Longrightarrow> refLevel_of m a < fuel \<Longrightarrow>
         \<exists>r g'. refine fuel m g a = Some (r, g') \<and> refines_to m (refLevel_of m a) g g'
                \<and> (r \<longleftrightarrow> g a \<noteq> None \<and> refLevel_of m a \<noteq> refLevelMaxAllowed m)"
proof (induction fuel arbitrary: a g)
  case 0
  then show ?case by simp
next
  case (Suc n)
  note va = Suc.prems(1)
  from va obtain l i j k where t: "getIndices m a = (l, i, j, k)" by (rule valid_idE)
  have la: "refLevel_of m a = l" unfolding refLevel_of_def t by simp
  show ?case
  proof (cases "g a \<noteq> None \<and> refLevel_of m a \<noteq> refLevelMaxAllowed m")
    case False
    then have "refine (Suc n) m g a = Some (False, g)"
      unfolding refine.simps Let_def t prod.case la by auto
    then show ?thesis using False refines_to_refl by auto
  next
    case True
    then have pres: "g a \<noteq> None" and lv: "refLevel_of m a \<noteq> refLevelMaxAllowed m" by blast+
    from refine_step[of m a g n, OF ok va pres lv] obtain ls where
      st: "refine (Suc n) m g a =
           (case refine_nbrs (refine n m) m
                   (insert_children (g(a := None)) (getChildren m a) ls 0) (getNeighbors m a) of
              None \<Rightarrow> None
            | Some g' \<Rightarrow> Some (True, g'))" by blast
    define g1 where "g1 = insert_children (g(a := None)) (getChildren m a) ls 0"
    have "\<exists>g'. refine_nbrs (refine n m) m g1 (getNeighbors m a) = Some g'
               \<and> (\<lambda>pre gt. refines_to m (refLevel_of m a) g gt) (getNeighbors m a) g'"
    proof (rule refine_nbrs_rule)
      show "refines_to m (refLevel_of m a) g g1"
        unfolding g1_def by (rule refine_frame[of m a g, OF ok va pres lv])
    next
      fix pre gt nbr
      assume "refines_to m (refLevel_of m a) g gt"
      then show "refines_to m (refLevel_of m a) g gt" .
    next
      fix pre gt nbr
      assume inv: "refines_to m (refLevel_of m a) g gt"
        and nbr: "nbr \<in> set (getNeighbors m a)" and ne: "getParent m nbr \<noteq> nbr"
      note np = neighbor_parent[OF ok va nbr ne]
      have "refLevel_of m (getParent m nbr) < n" using np(2) Suc.prems(2) by simp
      from Suc.IH[OF np(1) this, of gt] obtain r g' where
        r: "refine n m gt (getParent m nbr) = Some (r, g')"
        and p: "refines_to m (refLevel_of m (getParent m nbr)) gt g'" by blast
      have "refLevel_of m (getParent m nbr) \<le> refLevel_of m a" using np(2) by simp
      from refines_to_trans[OF inv p this] r
      show "\<exists>r g'. refine n m gt (getParent m nbr) = Some (r, g')
                   \<and> refines_to m (refLevel_of m a) g g'" by blast
    qed
    then obtain g' where lp: "refine_nbrs (refine n m) m g1 (getNeighbors m a) = Some g'"
      and rt: "refines_to m (refLevel_of m a) g g'" by blast
    have "refine (Suc n) m g a = Some (True, g')"
      unfolding st g1_def[symmetric] lp by simp
    then show ?thesis using True rt by blast
  qed
qed

section \<open>Refinement keeps geometric neighbours within one level\<close>

lemma refine_removes_self:
  assumes ok: "mesh_ok m" and va: "valid_id m a" and pres: "g a \<noteq> None"
    and lv: "refLevel_of m a \<noteq> refLevelMaxAllowed m"
    and fuel: "refLevel_of m a < fuel"
    and noanc: "\<forall>c. g c \<noteq> None \<longrightarrow> ancestor m c a \<longrightarrow> c = a"
  shows "\<exists>g'. refine fuel m g a = Some (True, g') \<and> g' a = None"
proof -
  obtain n where n: "fuel = Suc n" using fuel by (cases fuel) auto
  from va obtain l i j k where t: "getIndices m a = (l, i, j, k)"
    and ib: "in_bounds m l i j k" and ga: "getGlobalID m l i j k = a" by (rule valid_idE)
  have la: "refLevel_of m a = l" unfolding refLevel_of_def t by simp
  have l: "l < refLevelMaxAllowed m" using lv refLevel_le_max[OF va] unfolding la by simp
  note cf = children_facts[OF ok ib l, unfolded ga]
  from refine_step[of m a g n, OF ok va pres lv] obtain ls where
    st: "refine (Suc n) m g a =
         (case refine_nbrs (refine n m) m
                 (insert_children (g(a := None)) (getChildren m a) ls 0) (getNeighbors m a) of
            None \<Rightarrow> None
          | Some g' \<Rightarrow> Some (True, g'))" by blast
  define g1 where "g1 = insert_children (g(a := None)) (getChildren m a) ls 0"
  have "\<exists>g'. refine_nbrs (refine n m) m g1 (getNeighbors m a) = Some g'
             \<and> (\<lambda>pre (gt :: GlobalID \<rightharpoonup> LocalID). \<forall>c. gt c \<noteq> None \<longrightarrow> \<not> ancestor m c a)
                 (getNeighbors m a) g'"
  proof (rule refine_nbrs_rule)
    show "\<forall>c. g1 c \<noteq> None \<longrightarrow> \<not> ancestor m c a"
    proof (intro allI impI)
      fix c assume "g1 c \<noteq> None"
      then consider "g c \<noteq> None" "c \<noteq> a" | "c \<in> set (getChildren m a)"
        unfolding g1_def insert_children_keys by (cases "c = a") auto
      then show "\<not> ancestor m c a"
      proof cases
        case 1
        then show ?thesis using noanc by blast
      next
        case 2
        show ?thesis
        proof
          assume "ancestor m c a"
          from ancestor_level[OF this] cf(2)[OF 2] la show False by simp
        qed
      qed
    qed
  next
    fix pre :: "GlobalID list" and gt :: "GlobalID \<rightharpoonup> LocalID" and nbr
    assume "\<forall>c. gt c \<noteq> None \<longrightarrow> \<not> ancestor m c a"
    then show "\<forall>c. gt c \<noteq> None \<longrightarrow> \<not> ancestor m c a" .
  next
    fix pre :: "GlobalID list" and gt :: "GlobalID \<rightharpoonup> LocalID" and nbr
    assume inv: "\<forall>c. gt c \<noteq> None \<longrightarrow> \<not> ancestor m c a"
      and nbr: "nbr \<in> set (getNeighbors m a)" and ne: "getParent m nbr \<noteq> nbr"
    note np = neighbor_parent[OF ok va nbr ne]
    have "refLevel_of m (getParent m nbr) < n" using np(2) fuel unfolding n by simp
    from refine_post[OF ok np(1) this, of gt] obtain r g' where
      r: "refine n m gt (getParent m nbr) = Some (r, g')"
      and p: "refines_to m (refLevel_of m (getParent m nbr)) gt g'" by blast
    have "\<forall>c. g' c \<noteq> None \<longrightarrow> \<not> ancestor m c a"
    proof (intro allI impI)
      fix c assume c: "g' c \<noteq> None"
      show "\<not> ancestor m c a"
      proof (cases "gt c \<noteq> None")
        case True
        then show ?thesis using inv by blast
      next
        case False
        with c p obtain q where q: "gt q \<noteq> None" "ancestor m q c"
          unfolding refines_to_def by blast
        show ?thesis
        proof
          assume "ancestor m c a"
          from ancestor_trans[OF q(2) this] inv q(1) show False by blast
        qed
      qed
    qed
    with r show "\<exists>r g'. refine n m gt (getParent m nbr) = Some (r, g')
                 \<and> (\<forall>c. g' c \<noteq> None \<longrightarrow> \<not> ancestor m c a)" by blast
  qed
  then obtain g' where lp: "refine_nbrs (refine n m) m g1 (getNeighbors m a) = Some g'"
    and inv: "\<forall>c. g' c \<noteq> None \<longrightarrow> \<not> ancestor m c a" by blast
  have "refine fuel m g a = Some (True, g')"
    unfolding n st g1_def[symmetric] lp by simp
  moreover have "g' a = None" using inv ancestor_refl[of m a] by blast
  ultimately show ?thesis by blast
qed

lemma pick_axis:
  fixes i p s :: nat
  assumes s: "0 < s" and lo: "p * (2 * s) \<le> (i + 1) * s" and hi: "i * s \<le> (p + 1) * (2 * s)"
  obtains i' where "i' div 2 = p" "near i i'" "i' = i \<longleftrightarrow> i div 2 = p"
proof -
  have "p * (2 * s) = (2 * p) * s" by simp
  then have "(2 * p) * s \<le> (i + 1) * s" using lo by (simp only:)
  then have a: "2 * p \<le> i + 1" using s by (simp only: mult_le_cancel2)
  have "(p + 1) * (2 * s) = (2 * p + 2) * s" by simp
  then have "i * s \<le> (2 * p + 2) * s" using hi by (simp only:)
  then have b: "i \<le> 2 * p + 2" using s by (simp only: mult_le_cancel2)
  define i' where "i' = (if i < 2 * p then 2 * p else if i > 2 * p + 1 then 2 * p + 1 else i)"
  have "i' div 2 = p" unfolding i'_def by auto
  moreover have "near i i'" unfolding near_def i'_def using a b by auto
  moreover have "i' = i \<longleftrightarrow> i div 2 = p" unfolding i'_def by auto
  ultimately show ?thesis by (rule that)
qed

lemma coarse_neighbor_found:
  assumes ok: "mesh_ok m" and va: "valid_id m a" and vb: "valid_id m b"
    and lev: "Suc (refLevel_of m b) = refLevel_of m a" and adj: "adjacent m b a"
  shows "\<exists>nbr\<in>set (getNeighbors m a). getParent m nbr = b \<and> getParent m nbr \<noteq> nbr"
proof -
  from va obtain l i j k where ta: "getIndices m a = (l, i, j, k)"
    and iba: "in_bounds m l i j k" and ga: "getGlobalID m l i j k = a" by (rule valid_idE)
  from vb obtain lb p q r where tb: "getIndices m b = (lb, p, q, r)"
    and ibb: "in_bounds m lb p q r" and gb: "getGlobalID m lb p q r = b" by (rule valid_idE)
  have l: "l = Suc lb" using lev unfolding refLevel_of_def ta tb by simp
  have lmax: "l \<le> refLevelMaxAllowed m" using iba unfolding in_bounds_def by simp
  define s :: nat where "s = 2 ^ (refLevelMaxAllowed m - l)"
  have s: "0 < s" unfolding s_def by simp
  have "refLevelMaxAllowed m - lb = Suc (refLevelMaxAllowed m - l)" using l lmax by simp
  then have sb: "(2::nat) ^ (refLevelMaxAllowed m - lb) = 2 * s" unfolding s_def by simp
  from adj have tch: "touching m b a" and na: "\<not> ancestor m b a"
    unfolding adjacent_def by blast+
  from tch have t:
    "p * (2 * s) \<le> (i + 1) * s" "i * s \<le> (p + 1) * (2 * s)"
    "q * (2 * s) \<le> (j + 1) * s" "j * s \<le> (q + 1) * (2 * s)"
    "r * (2 * s) \<le> (k + 1) * s" "k * s \<le> (r + 1) * (2 * s)"
    unfolding touching_def ta tb prod.case Let_def sb s_def[symmetric] by blast+
  from pick_axis[OF s t(1,2)] obtain i' where i': "i' div 2 = p" "near i i'"
    "i' = i \<longleftrightarrow> i div 2 = p" by blast
  from pick_axis[OF s t(3,4)] obtain j' where j': "j' div 2 = q" "near j j'"
    "j' = j \<longleftrightarrow> j div 2 = q" by blast
  from pick_axis[OF s t(5,6)] obtain k' where k': "k' div 2 = r" "near k k'"
    "k' = k \<longleftrightarrow> k div 2 = r" by blast
  have dbl: "x < n * 2 ^ Suc lb" if "x div 2 < n * 2 ^ lb" for x n :: nat
  proof -
    have "x < 2 * (x div 2 + 1)" by presburger
    also have "\<dots> \<le> 2 * (n * 2 ^ lb)" using that by (intro mult_le_mono2) simp
    finally show ?thesis by (simp add: mult.commute mult.left_commute)
  qed
  have ib': "in_bounds m l i' j' k'"
    using ibb lmax unfolding in_bounds_def l i'(1)[symmetric] j'(1)[symmetric] k'(1)[symmetric]
    by (auto intro: dbl)
  have anc: "ancestor m b a \<longleftrightarrow> p = i div 2 \<and> q = j div 2 \<and> r = k div 2"
    unfolding ancestor_def ta tb prod.case l by simp
  have ne: "\<not> (i' = i \<and> j' = j \<and> k' = k)"
    using na unfolding anc i'(3) j'(3) k'(3) by blast
  define nbr where "nbr = getGlobalID m l i' j' k'"
  have mem: "nbr \<in> set (getNeighbors m a)"
    unfolding ga[symmetric] getNeighbors_iff[OF ok iba] nbr_def using ib' i'(2) j'(2) k'(2) ne
    by blast
  have "l - 1 = lb" using l by simp
  then have par: "getParent m nbr = b"
    unfolding nbr_def getParent_tuple[OF ok ib'] i'(1) j'(1) k'(1) using l gb by simp
  have "refLevel_of m nbr = l" unfolding nbr_def by (rule refLevel_getGlobalID[OF ok ib'])
  moreover have "refLevel_of m b = lb" unfolding refLevel_of_def tb by simp
  ultimately have "b \<noteq> nbr" using l by auto
  with mem par show ?thesis by blast
qed

lemma refined_no_ancestor:
  assumes wf: "mesh_wf m g" and rt: "refines_to m L g gt"
    and c: "gt c \<noteq> None" and b: "g b \<noteq> None" and anc: "ancestor m c b"
  shows "c = b"
proof -
  have vb: "valid_id m b" using wf b unfolding mesh_wf_def by blast
  from rt c have "g c \<noteq> None \<or> (valid_id m c \<and> (\<exists>p. g p \<noteq> None \<and> ancestor m p c))"
    unfolding refines_to_def by blast
  then obtain p where vc: "valid_id m c" and p: "g p \<noteq> None" "ancestor m p c"
    using wf ancestor_refl[of m c] unfolding mesh_wf_def by blast
  have "ancestor m p b" by (rule ancestor_trans[OF p(2) anc])
  then have "p = b" using wf p(1) b unfolding mesh_wf_def by blast
  then have "ancestor m b c" using p(2) by simp
  from ancestor_antisym[OF vc vb anc this] show ?thesis .
qed

lemma refine_balance_loop:
  assumes ok: "mesh_ok m" and wf: "mesh_wf m g" and pres: "g a \<noteq> None"
    and lv: "refLevel_of m a \<noteq> refLevelMaxAllowed m" and fuel: "refLevel_of m a < Suc n"
    and g1: "g1 = insert_children (g(a := None)) (getChildren m a) ls 0"
  shows "\<exists>g'. refine_nbrs (refine n m) m g1 (getNeighbors m a) = Some g'
           \<and> refines_to m (refLevel_of m a) g g'
           \<and> g' a = None
           \<and> (\<forall>c\<in>set (getChildren m a). g' c \<noteq> None)
           \<and> (\<forall>nbr\<in>set (getNeighbors m a). getParent m nbr \<noteq> nbr \<longrightarrow>
                 g (getParent m nbr) \<noteq> None \<longrightarrow> g' (getParent m nbr) = None)"
proof -
  define L where "L = refLevel_of m a"
  have va: "valid_id m a" using wf pres unfolding mesh_wf_def by blast
  from va obtain l i j k where t: "getIndices m a = (l, i, j, k)"
    and ib: "in_bounds m l i j k" and ga: "getGlobalID m l i j k = a" by (rule valid_idE)
  have la: "L = l" unfolding L_def refLevel_of_def t by simp
  have l: "l < refLevelMaxAllowed m"
    using lv refLevel_le_max[OF va] unfolding L_def[symmetric] la by simp
  note cf = children_facts[OF ok ib l, unfolded ga]
  define I where "I = (\<lambda>(pre :: GlobalID list) (gt :: GlobalID \<rightharpoonup> LocalID).
     refines_to m L g gt \<and> gt a = None \<and> (\<forall>c\<in>set (getChildren m a). gt c \<noteq> None)
     \<and> (\<forall>nbr\<in>set pre. getParent m nbr \<noteq> nbr \<longrightarrow>
            g (getParent m nbr) \<noteq> None \<longrightarrow> gt (getParent m nbr) = None))"
  have "\<exists>g'. refine_nbrs (refine n m) m g1 (getNeighbors m a) = Some g'
             \<and> I (getNeighbors m a) g'"
  proof (rule refine_nbrs_rule)
    have "refines_to m L g g1"
      unfolding g1 L_def by (rule refine_frame[of m a g, OF ok va pres lv])
    moreover have "g1 a = None"
    proof (rule ccontr)
      assume "g1 a \<noteq> None"
      then have "a \<in> set (getChildren m a)" unfolding g1 insert_children_keys by simp
      from cf(2)[OF this] la show False unfolding L_def by simp
    qed
    moreover have "\<forall>c\<in>set (getChildren m a). g1 c \<noteq> None"
      unfolding g1 insert_children_keys by blast
    ultimately show "I [] g1" unfolding I_def by simp
  next
    fix pre :: "GlobalID list" and gt :: "GlobalID \<rightharpoonup> LocalID" and nbr
    assume "I pre gt" and "getParent m nbr = nbr \<or> gt (getParent m nbr) = None"
    then show "I (pre @ [nbr]) gt" unfolding I_def by auto
  next
    fix pre :: "GlobalID list" and gt :: "GlobalID \<rightharpoonup> LocalID" and nbr
    assume inv: "I pre gt" and nbr: "nbr \<in> set (getNeighbors m a)"
      and ne: "getParent m nbr \<noteq> nbr" and pp: "gt (getParent m nbr) \<noteq> None"
    define p where "p = getParent m nbr"
    from inv have rt: "refines_to m L g gt" and ia: "gt a = None"
      and ic: "\<forall>c\<in>set (getChildren m a). gt c \<noteq> None"
      and ip: "\<forall>nbr\<in>set pre. getParent m nbr \<noteq> nbr \<longrightarrow>
            g (getParent m nbr) \<noteq> None \<longrightarrow> gt (getParent m nbr) = None"
      unfolding I_def by blast+
    note np = neighbor_parent[OF ok va nbr ne, folded p_def]
    have lp: "Suc (refLevel_of m p) = L" using np(2) unfolding L_def .
    have pn: "refLevel_of m p < n" using lp fuel unfolding L_def by simp
    from refine_post[OF ok np(1) pn, of gt] obtain r g' where
      r: "refine n m gt p = Some (r, g')"
      and po: "refines_to m (refLevel_of m p) gt g'" by blast
    have le: "refLevel_of m p \<le> L" using lp by simp
    have rt': "refines_to m L g g'" by (rule refines_to_trans[OF rt po le])
    have fresh: "g' b = None" if b: "g b \<noteq> None" "gt b = None" for b
    proof (rule ccontr)
      assume "g' b \<noteq> None"
      with po that(2) obtain q where q: "gt q \<noteq> None" "ancestor m q b"
        "refLevel_of m q < refLevel_of m b"
        unfolding refines_to_def by blast
      from refined_no_ancestor[OF wf rt q(1) b(1) q(2)] q(3) show False by simp
    qed
    have a': "g' a = None" by (rule fresh[OF pres ia])
    have c': "\<forall>c\<in>set (getChildren m a). g' c \<noteq> None"
    proof
      fix c assume c: "c \<in> set (getChildren m a)"
      have "gt c \<noteq> None" using ic c by blast
      with po have "g' c \<noteq> None \<or> refLevel_of m c \<le> refLevel_of m p"
        unfolding refines_to_def by blast
      moreover have "refLevel_of m c = Suc L" using cf(2)[OF c] la by simp
      ultimately show "g' c \<noteq> None" using lp by simp
    qed
    have old: "\<forall>nbr\<in>set pre. getParent m nbr \<noteq> nbr \<longrightarrow>
            g (getParent m nbr) \<noteq> None \<longrightarrow> g' (getParent m nbr) = None"
      using ip fresh by blast
    have cur: "g' p = None" if gp: "g p \<noteq> None"
    proof -
      have noanc: "\<forall>c. gt c \<noteq> None \<longrightarrow> ancestor m c p \<longrightarrow> c = p"
        using refined_no_ancestor[OF wf rt _ gp] by blast
      have lvp: "refLevel_of m p \<noteq> refLevelMaxAllowed m"
        using lp refLevel_le_max[OF va] unfolding L_def by simp
      from refine_removes_self[OF ok np(1) pp[folded p_def] lvp pn noanc] r
      show ?thesis by auto
    qed
    have "I (pre @ [nbr]) g'"
      unfolding I_def using rt' a' c' old cur unfolding p_def by auto
    with r show "\<exists>r g'. refine n m gt (getParent m nbr) = Some (r, g') \<and> I (pre @ [nbr]) g'"
      unfolding p_def by blast
  qed
  then show ?thesis unfolding I_def L_def by blast
qed

section \<open>The example meshes\<close>

lemmas eval_defs = getIndices_def getGlobalID_def u32_def u64_def sub64_def add_off_def
  upper_bound_def

lemma mesh1_fields:
  "bbox mesh1 = [1, 1, 1, 1, 1, 1]" "refLevelMaxAllowed mesh1 = 1"
  "meshLimits mesh1 = [0, 1, 0, 1, 0, 1]"
  by (simp_all add: mesh1_def)

lemma mesh2_fields:
  "bbox mesh2 = [2, 1, 1, 1, 1, 1]" "refLevelMaxAllowed mesh2 = 1"
  "callbackRefineBlock mesh2 = None"
  by (simp_all add: mesh2_def)

lemma mesh3_fields:
  "bbox mesh3 = [1, 1, 1, 1, 1, 1]" "refLevelMaxAllowed mesh3 = 3"
  "callbackCoarsenBlock mesh3 = None" "callbackRefineBlock mesh3 = None" "indeterminate mesh3 = 0"
  by (simp_all add: mesh3_def)

lemma mesh1_offsets: "offsets mesh1 = [0, 1]"
  by (simp add: mesh1_fields offsets_def N_blocks0_def u32_def Let_def)

lemma mesh2_offsets: "offsets mesh2 = [0, 2]"
  by (simp add: mesh2_fields offsets_def N_blocks0_def u32_def Let_def)

lemma mesh3_offsets: "offsets mesh3 = [0, 1, 9, 73]"
  by (simp add: mesh3_fields offsets_def N_blocks0_def u32_def Let_def offsets_upto_numeral)

lemma mesh_ok_examples: "mesh_ok mesh1" "mesh_ok mesh2" "mesh_ok mesh3"
  by (simp_all add: mesh_ok_def mesh1_fields mesh2_fields mesh3_fields)

lemma mesh2_ids:
  "getGlobalID mesh2 0 0 0 0 = 0" "getGlobalID mesh2 0 1 0 0 = 1"
  "getGlobalID mesh2 1 0 0 0 = 2" "getGlobalID mesh2 (Suc 0) 0 0 0 = 2"
  by (simp_all add: getGlobalID_def u32_def u64_def mesh2_fields mesh2_offsets Let_def
      cong: let_weak_cong)

lemma mesh2_bounds:
  "in_bounds mesh2 0 0 0 0" "in_bounds mesh2 0 1 0 0" "in_bounds mesh2 1 0 0 0"
  by (simp_all add: in_bounds_def mesh2_fields)

lemma mesh2_indices:
  "getIndices mesh2 0 = (0, 0, 0, 0)" "getIndices mesh2 1 = (0, 1, 0, 0)"
  "getIndices mesh2 2 = (1, 0, 0, 0)" "getIndices mesh2 (Suc 0) = (0, 1, 0, 0)"
  using getIndices_getGlobalID[OF mesh_ok_examples(2) mesh2_bounds(1)]
    getIndices_getGlobalID[OF mesh_ok_examples(2) mesh2_bounds(2)]
    getIndices_getGlobalID[OF mesh_ok_examples(2) mesh2_bounds(3)]
  unfolding mesh2_ids by simp_all

lemma mesh2_valid: "valid_id mesh2 0" "valid_id mesh2 1" "valid_id mesh2 2"
  using valid_getGlobalID[OF mesh_ok_examples(2) mesh2_bounds(1)]
    valid_getGlobalID[OF mesh_ok_examples(2) mesh2_bounds(2)]
    valid_getGlobalID[OF mesh_ok_examples(2) mesh2_bounds(3)]
  unfolding mesh2_ids by simp_all

lemma mesh2_levels: "refLevel_of mesh2 0 = 0" "refLevel_of mesh2 1 = 0" "refLevel_of mesh2 2 = 1"
  by (simp_all add: refLevel_of_def mesh2_indices)

lemma leaves2_keys: "leaves2 a \<noteq> None \<longleftrightarrow> a = 0 \<or> a = 1"
  by (simp add: leaves2_def)

lemma mesh2_wf: "mesh_wf mesh2 leaves2"
  unfolding mesh_wf_def leaves2_keys
  using mesh2_valid by (auto simp: ancestor_def mesh2_indices)

lemma mesh2_balanced: "balanced mesh2 leaves2"
  unfolding balanced_def leaves2_keys
  using mesh2_levels by auto

lemma mesh2_adjacent: "adjacent mesh2 1 0"
  by (simp add: adjacent_def touching_def ancestor_def mesh2_indices mesh2_fields)

lemma mesh2_nbrs: "getNeighbors mesh2 0 = [1]"
  by (simp add: getNeighbors_def mesh2_indices mesh2_fields mesh2_offsets eval_defs Let_def
      cong: let_weak_cong)

lemma mesh2_parent: "getParent mesh2 1 = 1" "getParent mesh2 (Suc 0) = Suc 0"
  by (simp_all add: getParent_def mesh2_indices)

lemma mesh2_child: "2 \<in> set (getChildren mesh2 0)"
  using getChildren_tuple[OF mesh_ok_examples(2) mesh2_bounds(1)]
  by (simp add: mesh2_fields mesh2_ids)

lemma mesh1_ids:
  "getGlobalID mesh1 1 1 0 0 = 2" "getGlobalID mesh1 1 0 1 0 = 3" "getGlobalID mesh1 1 0 0 1 = 5"
  "getGlobalID mesh1 1 2 0 0 = 3" "getGlobalID mesh1 0 0 0 0 = 0"
  by (simp_all add: getGlobalID_def u32_def u64_def mesh1_fields mesh1_offsets Let_def
      cong: let_weak_cong)

lemma mesh1_bounds:
  "in_bounds mesh1 1 1 0 0" "in_bounds mesh1 1 0 1 0" "in_bounds mesh1 1 0 0 1"
  "\<not> in_bounds mesh1 1 2 0 0" "in_bounds mesh1 0 0 0 0"
  by (simp_all add: in_bounds_def mesh1_fields)

lemma mesh1_indices:
  "getIndices mesh1 2 = (1, 1, 0, 0)" "getIndices mesh1 3 = (1, 0, 1, 0)"
  "getIndices mesh1 5 = (1, 0, 0, 1)" "getIndices mesh1 0 = (0, 0, 0, 0)"
  using getIndices_getGlobalID[OF mesh_ok_examples(1) mesh1_bounds(1)]
    getIndices_getGlobalID[OF mesh_ok_examples(1) mesh1_bounds(2)]
    getIndices_getGlobalID[OF mesh_ok_examples(1) mesh1_bounds(3)]
    getIndices_getGlobalID[OF mesh_ok_examples(1) mesh1_bounds(5)]
  unfolding mesh1_ids by simp_all

lemma mesh3_ids:
  "getGlobalID mesh3 0 0 0 0 = 0" "getGlobalID mesh3 1 1 0 0 = 2"
  "getGlobalID mesh3 2 0 1 0 = 13" "getGlobalID mesh3 2 0 2 0 = 17"
  "getGlobalID mesh3 2 2 0 0 = 11" "getGlobalID mesh3 3 0 2 0 = 89"
  "getGlobalID mesh3 2 4 0 0 = 13"
  by (simp_all add: getGlobalID_def u32_def u64_def mesh3_fields mesh3_offsets Let_def
      cong: let_weak_cong)

lemma mesh3_bounds:
  "in_bounds mesh3 0 0 0 0" "in_bounds mesh3 1 1 0 0" "in_bounds mesh3 2 0 1 0"
  "in_bounds mesh3 2 0 2 0" "in_bounds mesh3 2 2 0 0" "in_bounds mesh3 3 0 2 0"
  "\<not> in_bounds mesh3 2 4 0 0"
  by (simp_all add: in_bounds_def mesh3_fields)

lemma mesh3_indices:
  "getIndices mesh3 0 = (0, 0, 0, 0)" "getIndices mesh3 2 = (1, 1, 0, 0)"
  "getIndices mesh3 13 = (2, 0, 1, 0)" "getIndices mesh3 17 = (2, 0, 2, 0)"
  "getIndices mesh3 11 = (2, 2, 0, 0)" "getIndices mesh3 89 = (3, 0, 2, 0)"
  using getIndices_getGlobalID[OF mesh_ok_examples(3) mesh3_bounds(1)]
    getIndices_getGlobalID[OF mesh_ok_examples(3) mesh3_bounds(2)]
    getIndices_getGlobalID[OF mesh_ok_examples(3) mesh3_bounds(3)]
    getIndices_getGlobalID[OF mesh_ok_examples(3) mesh3_bounds(4)]
    getIndices_getGlobalID[OF mesh_ok_examples(3) mesh3_bounds(5)]
    getIndices_getGlobalID[OF mesh_ok_examples(3) mesh3_bounds(6)]
  unfolding mesh3_ids by simp_all

lemma mesh3_valid: "valid_id mesh3 13" "valid_id mesh3 2"
  using valid_getGlobalID[OF mesh_ok_examples(3) mesh3_bounds(3)]
    valid_getGlobalID[OF mesh_ok_examples(3) mesh3_bounds(2)]
  unfolding mesh3_ids by simp_all

lemma mesh3_child_89: "89 \<in> set (getChildren mesh3 13)"
  using getChildren_tuple[OF mesh_ok_examples(3) mesh3_bounds(3), unfolded mesh3_ids]
  by (simp add: mesh3_fields mesh3_ids)

lemma mesh3_octet_neighbor: "octet_neighbor mesh3 17 13"
  by (simp add: octet_neighbor_def mesh3_indices mesh3_valid)


text \<open>
  C2. On a mesh without overflow whose mapping holds leaves inside the grid and
  satisfies the 2:1 balance invariant, \<open>refine\<close> returns (with a recursion
  bound above the level of the block), and it returns true exactly when the block
  is in the mapping and not at the deepest level. When it returns true, the
  block is absent from the mapping afterwards, its eight children are present,
  and for every block \<open>b\<close> of the old mapping that is a geometric neighbour
  of the refined block, \<open>b\<close> itself or whatever blocks inside \<open>b\<close> the new
  mapping holds differ by at most one level from each of the eight children.
\<close>

theorem C2_refine_balance:
  assumes ok: "mesh_ok m" and wf: "mesh_wf m g" and bal: "balanced m g"
    and fuel: "refLevel_of m a < fuel"
  shows "\<exists>r g'. refine fuel m g a = Some (r, g')
           \<and> (r \<longleftrightarrow> g a \<noteq> None \<and> refLevel_of m a \<noteq> refLevelMaxAllowed m)
           \<and> (r \<longrightarrow>
                g' a = None
                \<and> length (getChildren m a) = 8
                \<and> (\<forall>c\<in>set (getChildren m a). g' c \<noteq> None)
                \<and> (\<forall>b. g b \<noteq> None \<longrightarrow> adjacent m b a \<longrightarrow>
                      (\<forall>b'. g' b' \<noteq> None \<longrightarrow> ancestor m b b' \<longrightarrow>
                         (\<forall>c\<in>set (getChildren m a).
                            refLevel_of m b' \<le> refLevel_of m c + 1
                            \<and> refLevel_of m c \<le> refLevel_of m b' + 1))))"
proof -
  obtain n where n: "fuel = Suc n" using fuel by (cases fuel) auto
  obtain l i j k where t: "getIndices m a = (l, i, j, k)" by (cases "getIndices m a") auto
  have la: "refLevel_of m a = l" unfolding refLevel_of_def t by simp
  show ?thesis
  proof (cases "g a \<noteq> None \<and> refLevel_of m a \<noteq> refLevelMaxAllowed m")
    case False
    then have "refine fuel m g a = Some (False, g)"
      unfolding n refine.simps Let_def t prod.case la by auto
    then show ?thesis using False by blast
  next
    case True
    then have pres: "g a \<noteq> None" and lv: "refLevel_of m a \<noteq> refLevelMaxAllowed m" by blast+
    have va: "valid_id m a" using wf pres unfolding mesh_wf_def by blast
    from va t have ib: "in_bounds m l i j k" and ga: "getGlobalID m l i j k = a"
      unfolding valid_id_def by simp_all
    have lmax: "l < refLevelMaxAllowed m" using lv refLevel_le_max[OF va] unfolding la by simp
    note cf = children_facts[OF ok ib lmax, unfolded ga]
    have len: "length (getChildren m a) = 8"
      using getChildren_tuple[OF ok ib lmax] unfolding ga by simp
    from refine_step[of m a g n, OF ok va pres lv] obtain ls where
      st: "refine (Suc n) m g a =
           (case refine_nbrs (refine n m) m
                   (insert_children (g(a := None)) (getChildren m a) ls 0) (getNeighbors m a) of
              None \<Rightarrow> None
            | Some g' \<Rightarrow> Some (True, g'))" by blast
    from refine_balance_loop[OF ok wf pres lv fuel[unfolded n] refl, of ls] obtain g' where
      lp: "refine_nbrs (refine n m) m
             (insert_children (g(a := None)) (getChildren m a) ls 0) (getNeighbors m a) = Some g'"
      and rt: "refines_to m (refLevel_of m a) g g'"
      and a': "g' a = None"
      and c': "\<forall>c\<in>set (getChildren m a). g' c \<noteq> None"
      and nb: "\<forall>nbr\<in>set (getNeighbors m a). getParent m nbr \<noteq> nbr \<longrightarrow>
                 g (getParent m nbr) \<noteq> None \<longrightarrow> g' (getParent m nbr) = None"
      by blast
    have res: "refine fuel m g a = Some (True, g')" unfolding n st lp by simp
    have nbrs: "refLevel_of m b' \<le> refLevel_of m c + 1
                \<and> refLevel_of m c \<le> refLevel_of m b' + 1"
      if b: "g b \<noteq> None" and adj: "adjacent m b a" and b': "g' b' \<noteq> None"
        and anc: "ancestor m b b'" and c: "c \<in> set (getChildren m a)" for b b' c
    proof -
      have lc: "refLevel_of m c = Suc l" by (rule cf(2)[OF c])
      have vb: "valid_id m b" using wf b unfolding mesh_wf_def by blast
      from bal b pres adj
      have "refLevel_of m b \<le> refLevel_of m a + 1 \<and> refLevel_of m a \<le> refLevel_of m b + 1"
        unfolding balanced_def by blast
      then have bl: "refLevel_of m b \<le> l + 1" "l \<le> refLevel_of m b + 1"
        unfolding la by blast+
      show ?thesis
      proof (cases "g b' \<noteq> None")
        case True
        then have eq: "b = b'" using wf b anc unfolding mesh_wf_def by blast
        have "Suc (refLevel_of m b) \<noteq> l"
        proof
          assume "Suc (refLevel_of m b) = l"
          then have "Suc (refLevel_of m b) = refLevel_of m a" unfolding la .
          from coarse_neighbor_found[OF ok va vb this adj] obtain nbr where
            nbr: "nbr \<in> set (getNeighbors m a)" "getParent m nbr = b"
            "getParent m nbr \<noteq> nbr" by blast
          from nb nbr(1) nbr(3) b[folded nbr(2)] have "g' (getParent m nbr) = None" by blast
          with b' eq nbr(2) show False by simp
        qed
        then show ?thesis using bl unfolding eq[symmetric] lc by simp
      next
        case False
        with rt b' have vb': "valid_id m b'" and ub: "refLevel_of m b' \<le> l + 1"
          unfolding refines_to_def la by blast+
        have "refLevel_of m b \<le> refLevel_of m b'" by (rule ancestor_level[OF anc])
        moreover have "refLevel_of m b \<noteq> refLevel_of m b'"
        proof
          assume "refLevel_of m b = refLevel_of m b'"
          from ancestor_same_level[OF vb vb' anc this] b False show False by simp
        qed
        ultimately have "l \<le> refLevel_of m b'" using bl(2) by simp
        then show ?thesis using ub unfolding lc by simp
      qed
    qed
    show ?thesis
      using res a' len c' nbrs True by blast
  qed
qed

theorem C2_refine_balance_witness:
  "mesh_ok mesh2 \<and> refLevel_of mesh2 0 < 1 \<and> leaves2 0 \<noteq> None \<and> leaves2 1 \<noteq> None
   \<and> adjacent mesh2 1 0 \<and> 2 \<in> set (getChildren mesh2 0)
   \<and> fst (the (refine 1 mesh2 leaves2 0)) = True
   \<and> snd (the (refine 1 mesh2 leaves2 0)) 0 = None
   \<and> snd (the (refine 1 mesh2 leaves2 0)) 1 \<noteq> None
   \<and> snd (the (refine 1 mesh2 leaves2 0)) 2 \<noteq> None
   \<and> refLevel_of mesh2 1 \<le> refLevel_of mesh2 2 + 1
   \<and> refLevel_of mesh2 2 \<le> refLevel_of mesh2 1 + 1"
proof -
  have fuel: "refLevel_of mesh2 0 < 1" by (simp add: mesh2_levels)
  have p0: "leaves2 0 \<noteq> None" and p1: "leaves2 1 \<noteq> None" by (simp_all add: leaves2_def)
  have lv: "refLevel_of mesh2 0 \<noteq> refLevelMaxAllowed mesh2"
    by (simp add: mesh2_levels mesh2_fields)
  from refine_step[of mesh2 0 leaves2 0, OF mesh_ok_examples(2) mesh2_valid(1) p0 lv]
  obtain ls where st: "refine (Suc 0) mesh2 leaves2 0 =
           (case refine_nbrs (refine 0 mesh2) mesh2
                   (insert_children (leaves2(0 := None)) (getChildren mesh2 0) ls 0)
                   (getNeighbors mesh2 0) of
              None \<Rightarrow> None
            | Some g' \<Rightarrow> Some (True, g'))" by blast
  define g1 where "g1 = insert_children (leaves2(0 := None)) (getChildren mesh2 0) ls 0"
  have loop: "refine_nbrs (refine 0 mesh2) mesh2 g1 [1] = Some g1"
    by (simp add: mesh2_parent)
  have "refine (Suc 0) mesh2 leaves2 0 = Some (True, g1)"
    unfolding st g1_def[symmetric] mesh2_nbrs loop by simp
  then have run: "refine 1 mesh2 leaves2 0 = Some (True, g1)" by simp
  have keep: "g1 1 \<noteq> None"
    unfolding g1_def insert_children_keys by (simp add: leaves2_def)
  from C2_refine_balance[OF mesh_ok_examples(2) mesh2_wf mesh2_balanced fuel]
  obtain r g' where res: "refine 1 mesh2 leaves2 0 = Some (r, g')"
    and flag: "r \<longleftrightarrow> leaves2 0 \<noteq> None \<and> refLevel_of mesh2 0 \<noteq> refLevelMaxAllowed mesh2"
    and post: "r \<longrightarrow>
                g' 0 = None
                \<and> length (getChildren mesh2 0) = 8
                \<and> (\<forall>c\<in>set (getChildren mesh2 0). g' c \<noteq> None)
                \<and> (\<forall>b. leaves2 b \<noteq> None \<longrightarrow> adjacent mesh2 b 0 \<longrightarrow>
                      (\<forall>b'. g' b' \<noteq> None \<longrightarrow> ancestor mesh2 b b' \<longrightarrow>
                         (\<forall>c\<in>set (getChildren mesh2 0).
                            refLevel_of mesh2 b' \<le> refLevel_of mesh2 c + 1
                            \<and> refLevel_of mesh2 c \<le> refLevel_of mesh2 b' + 1)))"
    by blast
  from flag p0 lv have r: "r" by simp
  from res run have same: "g' = g1" by simp
  from post r have gone: "g' 0 = None" and kids: "\<forall>c\<in>set (getChildren mesh2 0). g' c \<noteq> None"
    and nb: "\<forall>b. leaves2 b \<noteq> None \<longrightarrow> adjacent mesh2 b 0 \<longrightarrow>
                      (\<forall>b'. g' b' \<noteq> None \<longrightarrow> ancestor mesh2 b b' \<longrightarrow>
                         (\<forall>c\<in>set (getChildren mesh2 0).
                            refLevel_of mesh2 b' \<le> refLevel_of mesh2 c + 1
                            \<and> refLevel_of mesh2 c \<le> refLevel_of mesh2 b' + 1))"
    by blast+
  from kids mesh2_child have k2: "g' 2 \<noteq> None" by blast
  from keep same have k1: "g' 1 \<noteq> None" by simp
  from nb p1 mesh2_adjacent k1 ancestor_refl[of mesh2 1] mesh2_child
  have lev: "refLevel_of mesh2 1 \<le> refLevel_of mesh2 2 + 1
             \<and> refLevel_of mesh2 2 \<le> refLevel_of mesh2 1 + 1" by blast
  have "fst (the (refine 1 mesh2 leaves2 0)) = True" using res r by simp
  moreover have "snd (the (refine 1 mesh2 leaves2 0)) 0 = None" using res gone by simp
  moreover have "snd (the (refine 1 mesh2 leaves2 0)) 1 \<noteq> None" using res k1 by simp
  moreover have "snd (the (refine 1 mesh2 leaves2 0)) 2 \<noteq> None" using res k2 by simp
  ultimately show ?thesis
    using mesh_ok_examples(2) fuel p0 p1 mesh2_adjacent mesh2_child lev by blast
qed

section \<open>The self-check at the deepest level\<close>

lemma deepest_no_children:
  assumes "refLevelMaxAllowed m + 1 < 2 ^ 32" "refLevel_of m a = refLevelMaxAllowed m"
  shows "getChildren m a = []"
proof -
  obtain l i j k where t: "getIndices m a = (l, i, j, k)" by (cases "getIndices m a") auto
  from assms(2) t have l: "l = refLevelMaxAllowed m" by (simp add: refLevel_of_def)
  have "u32 (l + 1) = l + 1" unfolding l by (rule u32_id[OF assms(1)])
  then show ?thesis unfolding getChildren_def t by (simp add: l)
qed

text \<open>
  C10. On a mesh whose deepest level is below \<open>2^32 - 1\<close> (it is an 8-bit
  value in the source), \<open>getChildren\<close> returns no children for a block of
  the deepest level, and \<open>checkBlock\<close> returns true for such a block when
  it is absent from the mapping, exactly as it does when the block is present:
  the self-check cannot tell the two apart.
\<close>

theorem C10_checkBlock_deepest:
  assumes "refLevelMaxAllowed m + 1 < 2 ^ 32" and "refLevel_of m a = refLevelMaxAllowed m"
    and "g a = None"
  shows "getChildren m a = []
         \<and> checkBlock (Suc fuel) m g a = Some True
         \<and> checkBlock (Suc fuel) m (g(a \<mapsto> v)) a = Some True"
  using deepest_no_children[OF assms(1,2)] assms(3) by simp

theorem C10_checkBlock_deepest_witness:
  "refLevelMaxAllowed mesh1 + 1 < 2 ^ 32 \<and> refLevel_of mesh1 2 = refLevelMaxAllowed mesh1
   \<and> blocks1 2 = None \<and> getChildren mesh1 2 = []
   \<and> checkBlock 1 mesh1 blocks1 2 = Some True
   \<and> checkBlock 1 mesh1 (blocks1(2 \<mapsto> 7)) 2 = Some True"
proof -
  have h1: "refLevelMaxAllowed mesh1 + 1 < 2 ^ 32" by (simp add: mesh1_fields)
  have h2: "refLevel_of mesh1 2 = refLevelMaxAllowed mesh1"
    by (simp add: refLevel_of_def mesh1_indices mesh1_fields)
  have h3: "blocks1 2 = None" by (simp add: blocks1_def)
  from C10_checkBlock_deepest[of mesh1 2 blocks1 0 7, OF h1 h2 h3] h1 h2 h3 show ?thesis by simp
qed

section \<open>The neighbours of a sibling octet\<close>

lemma getSiblingNeighbors_length: "length (getSiblingNeighbors m a) = 56"
  by (simp add: getSiblingNeighbors_def split_def Let_def)

lemma getSiblingNeighbors_member:
  assumes t: "getIndices m a = (l, i, j, k)"
    and io: "io = - 1 \<or> io = 0 \<or> io = 1 \<or> io = 2"
    and jo: "jo = - 1 \<or> jo = 0 \<or> jo = 1 \<or> jo = 2"
    and ko: "ko = - 1 \<or> ko = 0 \<or> ko = 1 \<or> ko = 2"
    and out: "\<not> ((io = 0 \<or> io = 1) \<and> (jo = 0 \<or> jo = 1) \<and> (ko = 0 \<or> ko = 1))"
  shows "getGlobalID m l (add_off (i - i mod 2) io) (add_off (j - j mod 2) jo)
           (add_off (k - k mod 2) ko) \<in> set (getSiblingNeighbors m a)"
  using io jo ko out unfolding getSiblingNeighbors_def t prod.case Let_def
  by auto

lemma axis_offset:
  assumes lo: "2 * (i div 2) \<le> i' + 1" and hi: "i' \<le> 2 * (i div 2) + 2" and b: "i' < 2 ^ 32"
  obtains io where "io = - 1 \<or> io = 0 \<or> io = 1 \<or> io = 2"
    "add_off (i - i mod 2) io = i'" "(io = 0 \<or> io = 1) \<longleftrightarrow> i' div 2 = i div 2"
proof -
  define c where "c = 2 * (i div 2)"
  define io where "io = int i' - int c"
  have corner: "i - i mod 2 = c" unfolding c_def by presburger
  have r: "io = - 1 \<or> io = 0 \<or> io = 1 \<or> io = 2"
    using lo hi unfolding io_def c_def by linarith
  have "int c + io = int i'" unfolding io_def by simp
  moreover have "int i' mod 2 ^ 32 = int i'"
    by (rule mod_pos_pos_trivial) (use b in simp_all)
  ultimately have a: "add_off (i - i mod 2) io = i'"
    unfolding add_off_def corner by simp
  have "(io = 0 \<or> io = 1) \<longleftrightarrow> i' div 2 = i div 2"
    unfolding io_def c_def by presburger
  with r a show ?thesis using that by blast
qed

lemma octet_neighbor_member:
  assumes ok: "mesh_ok m" and nb: "octet_neighbor m a n"
  shows "n \<in> set (getSiblingNeighbors m a)"
proof -
  obtain l i j k where ta: "getIndices m a = (l, i, j, k)" by (cases "getIndices m a") auto
  obtain l' i' j' k' where tn: "getIndices m n = (l', i', j', k')"
    by (cases "getIndices m n") auto
  from nb have vn: "valid_id m n" and l': "l' = l"
    and x: "2 * (i div 2) \<le> i' + 1" "i' \<le> 2 * (i div 2) + 2"
    and y: "2 * (j div 2) \<le> j' + 1" "j' \<le> 2 * (j div 2) + 2"
    and z: "2 * (k div 2) \<le> k' + 1" "k' \<le> 2 * (k div 2) + 2"
    and out: "\<not> (i' div 2 = i div 2 \<and> j' div 2 = j div 2 \<and> k' div 2 = k div 2)"
    unfolding octet_neighbor_def ta tn by simp_all
  from vn tn have ib: "in_bounds m l i' j' k'" and id: "getGlobalID m l i' j' k' = n"
    unfolding valid_id_def l' by simp_all
  from ib have lm: "l \<le> refLevelMaxAllowed m" unfolding in_bounds_def by simp
  note b32 = in_bounds_32[OF ok lm]
  from ib b32 have bi: "i' < 2 ^ 32" and bj: "j' < 2 ^ 32" and bk: "k' < 2 ^ 32"
    unfolding in_bounds_def by linarith+
  from axis_offset[OF x bi] obtain io where
    io: "io = - 1 \<or> io = 0 \<or> io = 1 \<or> io = 2" "add_off (i - i mod 2) io = i'"
    "(io = 0 \<or> io = 1) \<longleftrightarrow> i' div 2 = i div 2" by blast
  from axis_offset[OF y bj] obtain jo where
    jo: "jo = - 1 \<or> jo = 0 \<or> jo = 1 \<or> jo = 2" "add_off (j - j mod 2) jo = j'"
    "(jo = 0 \<or> jo = 1) \<longleftrightarrow> j' div 2 = j div 2" by blast
  from axis_offset[OF z bk] obtain ko where
    ko: "ko = - 1 \<or> ko = 0 \<or> ko = 1 \<or> ko = 2" "add_off (k - k mod 2) ko = k'"
    "(ko = 0 \<or> ko = 1) \<longleftrightarrow> k' div 2 = k div 2" by blast
  have o: "\<not> ((io = 0 \<or> io = 1) \<and> (jo = 0 \<or> jo = 1) \<and> (ko = 0 \<or> ko = 1))"
    using out unfolding io(3) jo(3) ko(3) .
  from getSiblingNeighbors_member[OF ta io(1) jo(1) ko(1) o]
  show ?thesis unfolding io(2) jo(2) ko(2) id .
qed

lemma coarsen_refused:
  assumes "g a = None \<or> refLevel_of m a = 0
           \<or> (\<exists>s\<in>set (getSiblings m a). g s = None)
           \<or> (\<exists>n\<in>set (getSiblingNeighbors m a). \<exists>c\<in>set (getChildren m n). g c \<noteq> None)"
  shows "coarsen m g a = Some (False, g)"
proof -
  obtain l i j k where t: "getIndices m a = (l, i, j, k)" by (cases "getIndices m a") auto
  have lev: "refLevel_of m a = l" unfolding refLevel_of_def t by simp
  show ?thesis
    using assms unfolding coarsen_def t prod.case Let_def lev list_ex_iff
    by auto
qed

text \<open>
  C3. \<open>coarsen\<close> returns false and leaves the mapping as it is whenever the
  block is absent, or at level 0, or one of the eight siblings is absent, or one
  of the addresses that \<open>getSiblingNeighbors\<close> returns has a child in the
  mapping. On a mesh without overflow these addresses include every block of
  the grid that lies next to the sibling octet at its level, so \<open>coarsen\<close>
  also returns false, with the mapping unchanged, whenever such a neighbour of
  the octet has a child in the mapping.
\<close>

theorem C3_coarsen_refuses:
  assumes "g a = None \<or> refLevel_of m a = 0
           \<or> (\<exists>s\<in>set (getSiblings m a). g s = None)
           \<or> (\<exists>n\<in>set (getSiblingNeighbors m a). \<exists>c\<in>set (getChildren m n). g c \<noteq> None)
           \<or> (mesh_ok m \<and> (\<exists>n c. octet_neighbor m a n \<and> c \<in> set (getChildren m n)
                                 \<and> g c \<noteq> None))"
  shows "coarsen m g a = Some (False, g)"
proof -
  from assms octet_neighbor_member[of m a]
  have "g a = None \<or> refLevel_of m a = 0
           \<or> (\<exists>s\<in>set (getSiblings m a). g s = None)
           \<or> (\<exists>n\<in>set (getSiblingNeighbors m a). \<exists>c\<in>set (getChildren m n). g c \<noteq> None)"
    by blast
  then show ?thesis by (rule coarsen_refused)
qed

theorem C3_coarsen_refuses_witness:
  "mesh_ok mesh3 \<and> leaves3 17 \<noteq> None \<and> refLevel_of mesh3 17 = 2
   \<and> octet_neighbor mesh3 17 13 \<and> 89 \<in> set (getChildren mesh3 13) \<and> leaves3 89 \<noteq> None
   \<and> coarsen mesh3 leaves3 17 = Some (False, leaves3)"
proof -
  have p: "leaves3 89 \<noteq> None" "leaves3 17 \<noteq> None" by (simp_all add: leaves3_def)
  have l: "refLevel_of mesh3 17 = 2" by (simp add: refLevel_of_def mesh3_indices)
  have "mesh_ok mesh3 \<and> (\<exists>n c. octet_neighbor mesh3 17 n \<and> c \<in> set (getChildren mesh3 n)
                                 \<and> leaves3 c \<noteq> None)"
    using mesh_ok_examples(3) mesh3_octet_neighbor mesh3_child_89 p(1) by blast
  then have "coarsen mesh3 leaves3 17 = Some (False, leaves3)"
    by (intro C3_coarsen_refuses) blast
  then show ?thesis using mesh_ok_examples(3) mesh3_octet_neighbor mesh3_child_89 p l by blast
qed

text \<open>
  C6. \<open>getSiblingNeighbors\<close> does not compare the indices with the grid:
  it always returns 56 addresses. On the mesh with one base block and one level
  of refinement the eight blocks of level 1 are one octet and have no neighbour
  inside the grid; for block 5 the function still returns 56 addresses, among
  them the address computed from the index \<open>(2,0,0)\<close>, which is outside the
  grid of level 1. That address is 3, a block of the octet itself.
\<close>

theorem C6_getSiblingNeighbors_unclipped:
  "getIndices mesh1 5 = (1, 0, 0, 1)
   \<and> length (getSiblingNeighbors mesh1 5) = 56
   \<and> \<not> in_bounds mesh1 1 2 0 0 \<and> getGlobalID mesh1 1 2 0 0 = 3
   \<and> 3 \<in> set (getSiblingNeighbors mesh1 5)
   \<and> 3 \<in> set (getSiblings mesh1 5)"
proof -
  have mem: "getGlobalID mesh1 1 (add_off (0 - 0 mod 2) 2) (add_off (0 - 0 mod 2) 0)
           (add_off (1 - 1 mod 2) 0) \<in> set (getSiblingNeighbors mesh1 5)"
    by (rule getSiblingNeighbors_member[OF mesh1_indices(3)]) simp_all
  have a: "add_off (0 - 0 mod 2) 2 = 2" "add_off (0 - 0 mod 2) 0 = 0"
    "add_off (1 - 1 mod 2) 0 = 0" by (simp_all add: add_off_def)
  have m: "3 \<in> set (getSiblingNeighbors mesh1 5)" using mem unfolding a mesh1_ids .
  have "getSiblings mesh1 5 ! 2 = getGlobalID mesh1 1 0 1 0"
    unfolding getSiblings_def mesh1_indices prod.case Let_def by (simp add: u32_def)
  moreover have "2 < length (getSiblings mesh1 5)"
    unfolding getSiblings_def mesh1_indices prod.case Let_def by simp
  ultimately have s: "3 \<in> set (getSiblings mesh1 5)"
    unfolding mesh1_ids using nth_mem by metis
  show ?thesis
    using mesh1_indices(3) getSiblingNeighbors_length mesh1_bounds(4) mesh1_ids(4) m s by blast
qed

section \<open>Refining and coarsening again\<close>

lemma Suc_Suc_0: "Suc (Suc 0) = 2"
  by simp

lemma refine_nbrs_skip:
  assumes "\<forall>nbr\<in>set nbrs. getParent m nbr = nbr \<or> g (getParent m nbr) = None"
  shows "refine_nbrs rec m g nbrs = Some g"
  using assms by (induction nbrs) (auto simp: Let_def)

lemma mesh3_nbr_parent:
  assumes "nbr \<in> set (getNeighbors mesh3 2)"
  shows "getParent mesh3 nbr = 0"
proof -
  from assms obtain i' j' k' where ib: "in_bounds mesh3 1 i' j' k'"
    and nbr: "nbr = getGlobalID mesh3 1 i' j' k'"
    unfolding getNeighbors_iff[OF mesh_ok_examples(3) mesh3_bounds(2), unfolded mesh3_ids]
    by blast
  from ib have "i' div 2 = 0" "j' div 2 = 0" "k' div 2 = 0"
    by (simp_all add: in_bounds_def mesh3_fields)
  then show ?thesis
    unfolding nbr getParent_tuple[OF mesh_ok_examples(3) ib] by (simp add: mesh3_ids)
qed

lemma leaves3_absent:
  "leaves3 0 = None" "leaves3 11 = None" "leaves3 12 = None" "leaves3 15 = None"
  "leaves3 16 = None" "leaves3 27 = None" "leaves3 28 = None" "leaves3 31 = None"
  "leaves3 32 = None"
  by (simp_all add: leaves3_def)

lemma leaves3_present: "leaves3 2 \<noteq> None" "leaves3 89 \<noteq> None" "leaves3 17 \<noteq> None"
  by (simp_all add: leaves3_def)

lemma mesh3_children_2:
  "refine_children mesh3 2 2 0 0 = [11, 12, 15, 16, 27, 28, 31, 32]"
  by (simp add: refine_children_def getGlobalID_def u32_def u64_def mesh3_fields mesh3_offsets
      Let_def cong: let_weak_cong)

lemma mesh3_insert:
  "insert_children (leaves3(2 := None)) [11, 12, 15, 16, 27, 28, 31, 32] (replicate 8 0) 0
   = refined3"
  by (simp add: refined3_def map_insert_def leaves3_absent)

lemma refined3_facts:
  "refined3 0 = None" "refined3 2 = None" "refined3 11 \<noteq> None" "refined3 89 \<noteq> None"
  by (simp_all add: refined3_def leaves3_absent leaves3_present)

lemma mesh3_refine: "refine 2 mesh3 leaves3 2 = Some (True, refined3)"
proof -
  have loop: "refine_nbrs rec mesh3 refined3 (getNeighbors mesh3 2) = Some refined3" for rec
    by (rule refine_nbrs_skip) (simp add: mesh3_nbr_parent refined3_facts)
  have "refine (Suc 1) mesh3 leaves3 2 = Some (True, refined3)"
    unfolding refine.simps
    by (simp add: leaves3_present mesh3_indices mesh3_fields u32_def Suc_Suc_0 mesh3_children_2
        mesh3_insert loop Let_def del: insert_children.simps)
  then show ?thesis unfolding Suc_1 .
qed

lemma mesh3_child_11: "11 \<in> set (getChildren mesh3 2)"
  using getChildren_tuple[OF mesh_ok_examples(3) mesh3_bounds(2), unfolded mesh3_ids]
  by (simp add: mesh3_fields mesh3_ids Suc_Suc_0)

lemma mesh3_alias: "13 \<in> set (getSiblingNeighbors mesh3 11)"
proof -
  have mem: "getGlobalID mesh3 2 (add_off (2 - 2 mod 2) 2) (add_off (0 - 0 mod 2) 0)
           (add_off (0 - 0 mod 2) 0) \<in> set (getSiblingNeighbors mesh3 11)"
    by (rule getSiblingNeighbors_member[OF mesh3_indices(5)]) simp_all
  have a: "add_off (2 - 2 mod 2) 2 = 4" "add_off (0 - 0 mod 2) 0 = 0"
    by (simp_all add: add_off_def)
  show ?thesis using mem unfolding a mesh3_ids .
qed

text \<open>
  C5. On the mesh with one base block and three levels, in the mapping
  \<open>leaves3\<close>, block 2 is a leaf of level 1. \<open>refine(2)\<close> returns true and
  replaces block 2 by its eight children without refining any other block; the
  result is \<open>refined3\<close>. \<open>coarsen\<close> on the child 11 then returns false
  and leaves the eight children in place: block 2 is not restored. The reason
  is the address that \<open>getSiblingNeighbors\<close> computes from the index
  \<open>(4,0,0)\<close>, which is outside the grid of level 2: it is 13, the address of
  the block \<open>(0,1,0)\<close>, which does not lie next to the octet and whose child
  89 is in the mapping.
\<close>

theorem C5_refine_coarsen_blocked:
  "leaves3 2 \<noteq> None \<and> refLevel_of mesh3 2 = 1
   \<and> refine 2 mesh3 leaves3 2 = Some (True, refined3)
   \<and> 11 \<in> set (getChildren mesh3 2) \<and> refined3 11 \<noteq> None
   \<and> coarsen mesh3 refined3 11 = Some (False, refined3)
   \<and> refined3 2 = None
   \<and> 13 \<in> set (getSiblingNeighbors mesh3 11) \<and> \<not> octet_neighbor mesh3 11 13
   \<and> \<not> in_bounds mesh3 2 4 0 0 \<and> getGlobalID mesh3 2 4 0 0 = 13
   \<and> 89 \<in> set (getChildren mesh3 13) \<and> refined3 89 \<noteq> None"
proof -
  have l: "refLevel_of mesh3 2 = 1" by (simp add: refLevel_of_def mesh3_indices)
  have "\<exists>n\<in>set (getSiblingNeighbors mesh3 11). \<exists>c\<in>set (getChildren mesh3 n). refined3 c \<noteq> None"
    using mesh3_alias mesh3_child_89 refined3_facts(4) by blast
  then have c: "coarsen mesh3 refined3 11 = Some (False, refined3)"
    by (intro coarsen_refused) blast
  have n: "\<not> octet_neighbor mesh3 11 13"
    by (simp add: octet_neighbor_def mesh3_indices)
  show ?thesis
    using leaves3_present(1) l mesh3_refine mesh3_child_11 refined3_facts c mesh3_alias n
      mesh3_bounds(7) mesh3_ids(7) mesh3_child_89 by blast
qed

section \<open>Looking up a block by coordinates\<close>

lemma getGlobalID_levels_Cons:
  "getGlobalID_levels m g x y z (r # rs) =
     (if g (block_at m x y z r) \<noteq> None then block_at m x y z r
      else getGlobalID_levels m g x y z rs)"
  by (simp add: block_at_def Let_def)


lemma blocks1_keys:
  "blocks1 0 = None" "blocks1 2 = None" "blocks1 3 \<noteq> None"
  by (simp_all add: blocks1_def)


lemma mesh1_levels: "[0..<Suc (refLevelMaxAllowed mesh1)] = [0, 1]"
  by (simp add: mesh1_fields)



text \<open>
  The upper limits of y and z are not tested: the second and the third test
  compare \<open>x\<close> with them. A point above the upper limit of y is looked up
  like any other, and may be given a block.
\<close>

lemma getGlobalID_xyz_outside_y:
  "meshLimits mesh1 ! 3 < 3 \<and> blocks1 3 \<noteq> None
   \<and> getGlobalID_xyz mesh1 blocks1 (1/4) 3 (1/4) = 3"
proof -
  have b: "block_at mesh1 (1/4) 3 (1/4) 0 = 3"
    by (simp add: block_at_def mesh1_fields mesh1_offsets getGlobalID_def u32_def u64_def
        Let_def cong: let_weak_cong)
  have "getGlobalID_xyz mesh1 blocks1 (1/4) 3 (1/4) = 3"
    unfolding getGlobalID_xyz_def mesh1_levels getGlobalID_levels_Cons b
    by (simp add: mesh1_fields blocks1_keys)
  then show ?thesis by (simp add: mesh1_fields blocks1_keys)
qed




end
